theory Spec2Isabelle
  imports Main
begin

section \<open>Syntax trees, cursors and range changes\<close>

text \<open>
  The tree-sitter library (\<^verbatim>\<open>@vscode/tree-sitter-wasm\<close>) is an external dependency of
  \<^verbatim>\<open>treeSitterParserService.ts\<close>. Its data is modelled by what the service reads from it:
  a \<^verbatim>\<open>SyntaxNode\<close> carries an id, the has-changes marker, its start/end positions
  (zero-based row and column), its start/end byte indices and its children.
  JavaScript numbers that hold integers are \<^typ>\<open>int\<close>.
\<close>

record Point =
  row :: int
  column :: int

record NodeInfo =
  nid :: nat
  hasChanges :: bool
  startPosition :: Point
  endPosition :: Point
  startIndex :: int
  endIndex :: int

datatype SyntaxNode = Node (info: NodeInfo) (children: "SyntaxNode list")

abbreviation childCount :: "SyntaxNode \<Rightarrow> nat" where
  "childCount n \<equiv> length (children n)"

text \<open>
  A \<^verbatim>\<open>TreeCursor\<close> (the result of \<^verbatim>\<open>tree.walk()\<close>) is the current node together with the
  stack of its ancestors, each with the index of the child the cursor went into.
  \<^verbatim>\<open>gotoFirstChild\<close>, \<^verbatim>\<open>gotoNextSibling\<close> and \<^verbatim>\<open>gotoParent\<close> return whether the cursor
  moved; a cursor that cannot move stays where it is.
\<close>

datatype TreeCursor =
  TreeCursor (currentNode: SyntaxNode) (ancestors: "(SyntaxNode \<times> nat) list")

definition walk :: "SyntaxNode \<Rightarrow> TreeCursor" where
  "walk rootNode = TreeCursor rootNode []"

fun cursorGotoFirstChild :: "TreeCursor \<Rightarrow> bool \<times> TreeCursor" where
  "cursorGotoFirstChild (TreeCursor n st) =
     (case children n of
        [] \<Rightarrow> (False, TreeCursor n st)
      | c # _ \<Rightarrow> (True, TreeCursor c ((n, 0) # st)))"

fun cursorGotoNextSibling :: "TreeCursor \<Rightarrow> bool \<times> TreeCursor" where
  "cursorGotoNextSibling (TreeCursor n []) = (False, TreeCursor n [])"
| "cursorGotoNextSibling (TreeCursor n ((p, i) # st)) =
     (if Suc i < childCount p
      then (True, TreeCursor (children p ! Suc i) ((p, Suc i) # st))
      else (False, TreeCursor n ((p, i) # st)))"

fun cursorGotoParent :: "TreeCursor \<Rightarrow> bool \<times> TreeCursor" where
  "cursorGotoParent (TreeCursor n []) = (False, TreeCursor n [])"
| "cursorGotoParent (TreeCursor n ((p, i) # st)) = (True, TreeCursor p st)"

text \<open>
  \<^verbatim>\<open>cursor.currentNode.nextSibling\<close> and \<^verbatim>\<open>cursor.currentNode.parent\<close>: a node object
  knows its place in the tree; in the model the place is the cursor's ancestor stack.
\<close>

fun nextSibling :: "TreeCursor \<Rightarrow> SyntaxNode option" where
  "nextSibling (TreeCursor n []) = None"
| "nextSibling (TreeCursor n ((p, i) # st)) =
     (if Suc i < childCount p then Some (children p ! Suc i) else None)"

fun parent :: "TreeCursor \<Rightarrow> SyntaxNode option" where
  "parent (TreeCursor n []) = None"
| "parent (TreeCursor n ((p, i) # st)) = Some p"

text \<open>A thrown JavaScript \<^verbatim>\<open>Error(message)\<close>.\<close>

datatype error = Error string

abbreviation outOfSync :: error where
  "outOfSync \<equiv> Error ''Trees are out of sync''"

subsection \<open>\<^verbatim>\<open>TreeSitterParseResult.findChangedNodes\<close>\<close>

text \<open>
  The three closures of \<^verbatim>\<open>findChangedNodes\<close> move both cursors and throw when only one
  of them moved (\<open>n\<close> is the new cursor's answer, \<open>n'\<close> the old cursor's, the
  source's \<^verbatim>\<open>o\<close>). The pair is (new cursor, old cursor).
\<close>

type_synonym cursors = "TreeCursor \<times> TreeCursor"

definition gotoNextSibling :: "cursors \<Rightarrow> error + (bool \<times> cursors)" where
  "gotoNextSibling cs =
     (let (n, newCursor) = cursorGotoNextSibling (fst cs);
          (n', oldCursor) = cursorGotoNextSibling (snd cs)
      in if n \<noteq> n' then Inl outOfSync else Inr (n \<and> n', (newCursor, oldCursor)))"

definition gotoParent :: "cursors \<Rightarrow> error + (bool \<times> cursors)" where
  "gotoParent cs =
     (let (n, newCursor) = cursorGotoParent (fst cs);
          (n', oldCursor) = cursorGotoParent (snd cs)
      in if n \<noteq> n' then Inl outOfSync else Inr (n \<and> n', (newCursor, oldCursor)))"

definition gotoFirstChild :: "cursors \<Rightarrow> error + (bool \<times> cursors)" where
  "gotoFirstChild cs =
     (let (n, newCursor) = cursorGotoFirstChild (fst cs);
          (n', oldCursor) = cursorGotoFirstChild (snd cs)
      in if n \<noteq> n' then Inl outOfSync else Inr (n \<and> n', (newCursor, oldCursor)))"

text \<open>
  \<^verbatim>\<open>nextSiblingOrParentSibling\<close>: a do-while loop. One round either returns the result of
  \<^verbatim>\<open>gotoNextSibling\<close>, or goes to the parent (when there is one) and tests the loop
  condition on the node reached.
\<close>

lemma cursorGotoParent_shorter:
  "parent c \<noteq> None \<Longrightarrow> length (ancestors (snd (cursorGotoParent c))) < length (ancestors c)"
  by (cases c rule: cursorGotoParent.cases) auto

function nextSiblingOrParentSibling :: "cursors \<Rightarrow> error + (bool \<times> cursors)" where
  "nextSiblingOrParentSibling cs =
     (if nextSibling (fst cs) \<noteq> None then gotoNextSibling cs
      else
        (case (if parent (fst cs) \<noteq> None then gotoParent cs else Inr (False, cs)) of
           Inl e \<Rightarrow> Inl e
         | Inr (_, cs') \<Rightarrow>
             if nextSibling (fst cs') \<noteq> None \<or> parent (fst cs') \<noteq> None
             then nextSiblingOrParentSibling cs'
             else Inr (False, cs')))"
  by pat_completeness auto
termination
proof (relation "measure (\<lambda>cs. length (ancestors (fst cs)))")
  show "wf (measure (\<lambda>cs. length (ancestors (fst cs))))" by simp
next
  fix cs :: cursors and x2 x1 cs'
  assume ns: "\<not> nextSibling (fst cs) \<noteq> None"
    and r: "(if parent (fst cs) \<noteq> None then gotoParent cs else Inr (False, cs)) = Inr x2"
    and x2: "(x1, cs') = x2"
    and c: "nextSibling (fst cs') \<noteq> None \<or> parent (fst cs') \<noteq> None"
  have p: "parent (fst cs) \<noteq> None"
  proof (rule ccontr)
    assume "\<not> parent (fst cs) \<noteq> None"
    with r x2 have "cs' = cs" by auto
    with ns c \<open>\<not> parent (fst cs) \<noteq> None\<close> show False by simp
  qed
  with r x2 have "fst cs' = snd (cursorGotoParent (fst cs))"
    by (auto simp: gotoParent_def Let_def split: prod.splits if_splits)
  with p show "(cs', cs) \<in> measure (\<lambda>cs. length (ancestors (fst cs)))"
    using cursorGotoParent_shorter[of "fst cs"] by simp
qed

declare nextSiblingOrParentSibling.simps [simp del]

text \<open>
  The loop of \<^verbatim>\<open>findChangedNodes\<close> terminates: every round moves the new cursor forward
  in the pre-order of the new tree. \<open>remaining\<close> counts the nodes after the cursor.
  An element of the \<^verbatim>\<open>changedNodes\<close> array is a \<open>ChangedNode\<close>.
\<close>

record ChangedNode =
  new :: SyntaxNode
  old :: SyntaxNode

fun nodes :: "SyntaxNode \<Rightarrow> nat" where
  "nodes (Node i cs) = Suc (sum_list (map nodes cs))"

lemma nodes_pos: "0 < nodes n"
  by (cases n) simp

fun after :: "(SyntaxNode \<times> nat) list \<Rightarrow> nat" where
  "after [] = 0"
| "after ((p, i) # st) = sum_list (map nodes (drop (Suc i) (children p))) + after st"

definition remaining :: "TreeCursor \<Rightarrow> nat" where
  "remaining c = nodes (currentNode c) - 1 + after (ancestors c)"

lemma after_le_remaining: "after (ancestors c) \<le> remaining c"
  by (simp add: remaining_def)

lemma cursorGotoFirstChild_remaining:
  "cursorGotoFirstChild c = (True, c') \<Longrightarrow> remaining c' < remaining c"
proof (cases c)
  case (TreeCursor n st)
  assume a: "cursorGotoFirstChild c = (True, c')"
  obtain i cs where n: "n = Node i cs" by (cases n)
  from a TreeCursor n obtain x xs where cs: "cs = x # xs" and c': "c' = TreeCursor x ((n, 0) # st)"
    by (auto split: list.splits)
  have "0 < nodes x" by (rule nodes_pos)
  then show ?thesis
    using TreeCursor n cs c' by (simp add: remaining_def drop_Suc)
qed

lemma cursorGotoNextSibling_remaining:
  "cursorGotoNextSibling c = (True, c') \<Longrightarrow> Suc (remaining c') = after (ancestors c)"
proof (cases c rule: cursorGotoNextSibling.cases)
  case (1 n)
  assume "cursorGotoNextSibling c = (True, c')"
  with 1 show ?thesis by simp
next
  case (2 n p i st)
  assume a: "cursorGotoNextSibling c = (True, c')"
  with 2 have lt: "Suc i < childCount p"
    and c': "c' = TreeCursor (children p ! Suc i) ((p, Suc i) # st)"
    by (auto split: if_splits)
  have "drop (Suc i) (children p) = children p ! Suc i # drop (Suc (Suc i)) (children p)"
    using lt by (simp add: Cons_nth_drop_Suc)
  moreover have "0 < nodes (children p ! Suc i)" by (rule nodes_pos)
  ultimately show ?thesis
    using 2 c' by (simp add: remaining_def)
qed

lemma gotoFirstChild_remaining:
  "gotoFirstChild cs = Inr (True, cs') \<Longrightarrow> remaining (fst cs') < remaining (fst cs)"
  by (auto simp: gotoFirstChild_def Let_def split: prod.splits if_splits
      intro: cursorGotoFirstChild_remaining)

lemma gotoNextSibling_remaining:
  "gotoNextSibling cs = Inr (True, cs') \<Longrightarrow> Suc (remaining (fst cs')) = after (ancestors (fst cs))"
  by (auto simp: gotoNextSibling_def Let_def split: prod.splits if_splits
      intro: cursorGotoNextSibling_remaining)

lemma gotoParent_after:
  "gotoParent cs = Inr (b, cs') \<Longrightarrow> after (ancestors (fst cs')) \<le> after (ancestors (fst cs))"
  by (cases "fst cs" rule: cursorGotoParent.cases)
    (auto simp: gotoParent_def Let_def split: prod.splits if_splits)

lemma nextSiblingOrParentSibling_remaining:
  "nextSiblingOrParentSibling cs = Inr (True, cs') \<Longrightarrow>
   Suc (remaining (fst cs')) \<le> after (ancestors (fst cs))"
proof (induction cs rule: nextSiblingOrParentSibling.induct)
  case (1 cs)
  show ?case
  proof (cases "nextSibling (fst cs) \<noteq> None")
    case True
    with "1.prems" have "gotoNextSibling cs = Inr (True, cs')"
      by (subst (asm) nextSiblingOrParentSibling.simps) simp
    then show ?thesis using gotoNextSibling_remaining by simp
  next
    case False
    define r where "r = (if parent (fst cs) \<noteq> None then gotoParent cs else Inr (False, cs))"
    from False "1.prems" obtain b cs1 where r: "r = Inr (b, cs1)"
      and c: "nextSibling (fst cs1) \<noteq> None \<or> parent (fst cs1) \<noteq> None"
      and rec: "nextSiblingOrParentSibling cs1 = Inr (True, cs')"
      unfolding r_def
      by (subst (asm) nextSiblingOrParentSibling.simps)
        (auto split: sum.splits prod.splits if_splits)
    from "1.IH"[OF False r[unfolded r_def] refl c rec]
    have "Suc (remaining (fst cs')) \<le> after (ancestors (fst cs1))" .
    moreover have "after (ancestors (fst cs1)) \<le> after (ancestors (fst cs))"
      using r gotoParent_after unfolding r_def by (auto split: if_splits)
    ultimately show ?thesis by simp
  qed
qed

text \<open>
  One round of the do-while loop of \<^verbatim>\<open>findChangedNodes\<close>:
  \<^verbatim>\<open>
  let canGoChild = newCursor.currentNode.childCount > 0;
  if (newCursor.currentNode.hasChanges && newCursor.currentNode.id !== newTree.rootNode.id) {
      changedNodes.push({ new: newCursor.currentNode, old: oldCursor.currentNode });
      canGoChild = false;
  }
  next = canGoChild ? gotoFirstChild() : nextSiblingOrParentSibling();
  \<close>
  A \<^verbatim>\<open>Parser.Tree\<close> is modelled by its root node.
\<close>

definition isChanged :: "nat \<Rightarrow> cursors \<Rightarrow> bool" where
  "isChanged rootId cs \<longleftrightarrow>
     hasChanges (info (currentNode (fst cs))) \<and> nid (info (currentNode (fst cs))) \<noteq> rootId"

definition canGoChild :: "nat \<Rightarrow> cursors \<Rightarrow> bool" where
  "canGoChild rootId cs \<longleftrightarrow>
     (if isChanged rootId cs then False else childCount (currentNode (fst cs)) > 0)"

definition pushChanged :: "nat \<Rightarrow> cursors \<Rightarrow> ChangedNode list \<Rightarrow> ChangedNode list" where
  "pushChanged rootId cs changedNodes =
     (if isChanged rootId cs
      then changedNodes @ [\<lparr>new = currentNode (fst cs), old = currentNode (snd cs)\<rparr>]
      else changedNodes)"

function findChangedNodes_loop ::
  "nat \<Rightarrow> cursors \<Rightarrow> ChangedNode list \<Rightarrow> error + ChangedNode list" where
  "findChangedNodes_loop rootId cs changedNodes =
     (case (if canGoChild rootId cs then gotoFirstChild cs else nextSiblingOrParentSibling cs) of
        Inl e \<Rightarrow> Inl e
      | Inr (next, cs') \<Rightarrow>
          if next then findChangedNodes_loop rootId cs' (pushChanged rootId cs changedNodes)
          else Inr (pushChanged rootId cs changedNodes))"
  by pat_completeness auto
termination
proof (relation "measure (\<lambda>(rootId, cs, changedNodes). remaining (fst cs))")
  show "wf (measure (\<lambda>(rootId, cs, changedNodes). remaining (fst cs)))" by simp
next
  fix rootId :: nat and cs :: cursors and changedNodes :: "ChangedNode list" and x2 nxt cs'
  assume r: "(if canGoChild rootId cs then gotoFirstChild cs
              else nextSiblingOrParentSibling cs) = Inr x2"
    and x2: "(nxt, cs') = x2" and n: "nxt"
  have "remaining (fst cs') < remaining (fst cs)"
  proof (cases "canGoChild rootId cs")
    case True
    with r x2 n show ?thesis using gotoFirstChild_remaining[of cs cs'] by simp
  next
    case False
    with r x2 n have "Suc (remaining (fst cs')) \<le> after (ancestors (fst cs))"
      using nextSiblingOrParentSibling_remaining[of cs cs'] by simp
    then show ?thesis using after_le_remaining[of "fst cs"] by simp
  qed
  then show "((rootId, cs', pushChanged rootId cs changedNodes), rootId, cs, changedNodes)
      \<in> measure (\<lambda>(rootId, cs, changedNodes). remaining (fst cs))"
    by simp
qed

declare findChangedNodes_loop.simps [simp del]

definition findChangedNodes :: "SyntaxNode \<Rightarrow> SyntaxNode \<Rightarrow> error + ChangedNode list" where
  "findChangedNodes newTree oldTree =
     findChangedNodes_loop (nid (info newTree)) (walk newTree, walk oldTree) []"

text \<open>
  The diff as the specification words it, by recursion on the trees: a node of the new
  tree that carries the marker and is not the root is one change unit, paired with the old
  node at the same place, and its children are not looked at; any other node contributes
  the units of its children, from left to right. The trees are out of sync where the new
  node has a child or a further sibling and the old node has none.
\<close>

fun diffNode :: "bool \<Rightarrow> SyntaxNode \<Rightarrow> SyntaxNode \<Rightarrow> error + ChangedNode list"
  and diffChildren :: "SyntaxNode list \<Rightarrow> SyntaxNode list \<Rightarrow> error + ChangedNode list" where
  "diffNode isRoot (Node i cs) n' =
     (if hasChanges i \<and> \<not> isRoot then Inr [\<lparr>new = Node i cs, old = n'\<rparr>]
      else if cs = [] then Inr []
      else if children n' = [] then Inl outOfSync
      else diffChildren cs (children n'))"
| "diffChildren [] ds = Inr []"
| "diffChildren (c # cs) [] = Inl outOfSync"
| "diffChildren (c # cs) (d # ds) =
     (case diffNode False c d of
        Inl e \<Rightarrow> Inl e
      | Inr us \<Rightarrow>
          if cs = [] then Inr us
          else if ds = [] then Inl outOfSync
          else (case diffChildren cs ds of Inl e \<Rightarrow> Inl e | Inr vs \<Rightarrow> Inr (us @ vs)))"

text \<open>
  Names for the statements about the traversal: the nodes of a subtree in pre-order, the
  nodes below the root, and what the loop does once a subtree is done
  (\<^verbatim>\<open>nextSiblingOrParentSibling\<close>, then the next round or the end of the loop).
\<close>

fun nodesOf :: "SyntaxNode \<Rightarrow> SyntaxNode list" where
  "nodesOf (Node i cs) = Node i cs # concat (map nodesOf cs)"

definition descendants :: "SyntaxNode \<Rightarrow> SyntaxNode list" where
  "descendants n = concat (map nodesOf (children n))"

definition afterNode :: "nat \<Rightarrow> cursors \<Rightarrow> ChangedNode list \<Rightarrow> error + ChangedNode list" where
  "afterNode rootId cs acc =
     (case nextSiblingOrParentSibling cs of
        Inl e \<Rightarrow> Inl e
      | Inr (nxt, cs') \<Rightarrow> if nxt then findChangedNodes_loop rootId cs' acc else Inr acc)"

subsection \<open>\<^verbatim>\<open>TreeSitterParseResult.calculateRangeChange\<close>\<close>

text \<open>
  Modelled from the spec: the class \<^verbatim>\<open>Range\<close> (\<^verbatim>\<open>core/range.ts\<close>) and the type
  \<^verbatim>\<open>RangeChange\<close> (\<^verbatim>\<open>services/treeSitterParserService.ts\<close>) are declared in files that are
  not among the translated sources. The specification describes a range change as a range
  in one-based row/column coordinates plus the byte length of the old region. A range is
  its four coordinates, in the order the constructor call
  \<^verbatim>\<open>new Range(startLineNumber, startColumn, endLineNumber, endColumn)\<close> passes them; a
  \<^verbatim>\<open>RangeChange\<close> is the object literal \<^verbatim>\<open>{ newRange, oldRangeLength }\<close>.
\<close>

record Range =
  startLineNumber :: int
  startColumn :: int
  endLineNumber :: int
  endColumn :: int

record RangeChange =
  newRange :: Range
  oldRangeLength :: int

definition rangeChangeOf :: "ChangedNode \<Rightarrow> RangeChange" where
  "rangeChangeOf node =
     \<lparr>newRange =
        \<lparr>startLineNumber = row (startPosition (info (new node))) + 1,
         startColumn = column (startPosition (info (new node))) + 1,
         endLineNumber = row (endPosition (info (new node))) + 1,
         endColumn = column (endPosition (info (new node))) + 1\<rparr>,
      oldRangeLength = endIndex (info (old node)) - startIndex (info (old node))\<rparr>"

definition calculateRangeChange :: "ChangedNode list option \<Rightarrow> RangeChange list option" where
  "calculateRangeChange changedNodes =
     (case changedNodes of
        None \<Rightarrow> None
      | Some changed \<Rightarrow> Some (map rangeChangeOf changed))"

section \<open>The asynchronous cache\<close>

text \<open>
  A JavaScript promise is pending, fulfilled with a value or rejected with an error; once
  settled it never changes.
\<close>

datatype 'a PromiseState = Pending | Fulfilled 'a | Rejected error

text \<open>
  Modelled from the spec: the class \<^verbatim>\<open>PromiseResult\<close> (\<^verbatim>\<open>base/common/observable.ts\<close>) is
  declared in a file that is not among the translated sources. The specification has the
  cache record how a value settled, as a success value or as a failure; the record holds
  the two constructor arguments, \<^verbatim>\<open>data\<close> (read by \<^verbatim>\<open>getSyncIfCached\<close>) and \<^verbatim>\<open>error\<close>.
\<close>

record 'a PromiseResult =
  data :: "'a option"
  error :: "error option"

text \<open>
  \<^verbatim>\<open>PromiseWithSyncAccess\<close>: the promise and the \<^verbatim>\<open>_result\<close> field. The constructor
  registers \<^verbatim>\<open>promise.then(...).catch(...)\<close>; the callback runs some time after the promise
  has settled (\<open>onSettled\<close>), and does nothing before.
\<close>

record 'a PromiseWithSyncAccess =
  promise :: "'a PromiseState"
  result :: "'a PromiseResult option"

definition newPromiseWithSyncAccess :: "'a PromiseState \<Rightarrow> 'a PromiseWithSyncAccess" where
  "newPromiseWithSyncAccess p = \<lparr>promise = p, result = None\<rparr>"

definition settle :: "'a PromiseState \<Rightarrow> 'a PromiseWithSyncAccess \<Rightarrow> 'a PromiseWithSyncAccess" where
  "settle outcome p = (if promise p = Pending then p\<lparr>promise := outcome\<rparr> else p)"

definition onSettled :: "'a PromiseWithSyncAccess \<Rightarrow> 'a PromiseWithSyncAccess" where
  "onSettled p =
     (case promise p of
        Pending \<Rightarrow> p
      | Fulfilled v \<Rightarrow> p\<lparr>result := Some \<lparr>data = Some v, error = None\<rparr>\<rparr>
      | Rejected e \<Rightarrow> p\<lparr>result := Some \<lparr>data = None, error = Some e\<rparr>\<rparr>)"

text \<open>\<^verbatim>\<open>AsyncCache\<close>: a \<^verbatim>\<open>Map\<close> from keys to \<^verbatim>\<open>PromiseWithSyncAccess\<close>.\<close>

type_synonym ('k, 'a) AsyncCache = "'k \<rightharpoonup> 'a PromiseWithSyncAccess"

definition cacheSet :: "('k, 'a) AsyncCache \<Rightarrow> 'k \<Rightarrow> 'a PromiseState \<Rightarrow> ('k, 'a) AsyncCache" where
  "cacheSet values key p = values(key \<mapsto> newPromiseWithSyncAccess p)"

definition cacheGet :: "('k, 'a) AsyncCache \<Rightarrow> 'k \<Rightarrow> 'a PromiseState option" where
  "cacheGet values key = map_option promise (values key)"

definition getSyncIfCached :: "('k, 'a) AsyncCache \<Rightarrow> 'k \<Rightarrow> 'a option" where
  "getSyncIfCached values key =
     (case values key of
        None \<Rightarrow> None
      | Some p \<Rightarrow> (case result p of None \<Rightarrow> None | Some r \<Rightarrow> data r))"

definition isCached :: "('k, 'a) AsyncCache \<Rightarrow> 'k \<Rightarrow> bool" where
  "isCached values key =
     (case values key of None \<Rightarrow> False | Some p \<Rightarrow> result p \<noteq> None)"

text \<open>
  What can happen to a cache: \<^verbatim>\<open>set\<close> is called, the promise stored under a key settles,
  or the callback registered for a key runs.
\<close>

datatype ('k, 'a) CacheEvent =
    CacheSet 'k "'a PromiseState"
  | Settles 'k "'a PromiseState"
  | CallbackRuns 'k

fun cacheStep :: "('k, 'a) AsyncCache \<Rightarrow> ('k, 'a) CacheEvent \<Rightarrow> ('k, 'a) AsyncCache" where
  "cacheStep values (CacheSet key p) = cacheSet values key p"
| "cacheStep values (Settles key outcome) =
     (case values key of None \<Rightarrow> values | Some p \<Rightarrow> values(key \<mapsto> settle outcome p))"
| "cacheStep values (CallbackRuns key) =
     (case values key of None \<Rightarrow> values | Some p \<Rightarrow> values(key \<mapsto> onSettled p))"

definition cacheRun :: "('k, 'a) CacheEvent list \<Rightarrow> ('k, 'a) AsyncCache" where
  "cacheRun events = foldl cacheStep Map.empty events"

section \<open>The grammar catalog: \<^verbatim>\<open>TreeSitterLanguages\<close>\<close>

text \<open>
  A loaded \<^verbatim>\<open>Parser.Language\<close> is an opaque value of the tree-sitter library. The file
  service, the importer and the event emitter are external: the model records the calls
  made to them (\<^verbatim>\<open>_fetchLanguage\<close> started, \<^verbatim>\<open>readFile\<close> asked for a path on behalf of
  a language, \<^verbatim>\<open>_onDidAddLanguage.fire\<close> called) and takes their answers as events.

  An \<^verbatim>\<open>async\<close> method runs up to its first \<^verbatim>\<open>await\<close> inside the call; the rest runs
  later, as a continuation. The state holds the suspended invocations:
  \<open>addLanguageAwaiting\<close> are the invocations of \<^verbatim>\<open>_addLanguage\<close> that wait at
  \<^verbatim>\<open>await this._languages.get(languageId)\<close>, \<open>getLanguageAwaiting\<close> the invocations of
  \<^verbatim>\<open>getLanguage\<close> that wait at \<^verbatim>\<open>await this._addLanguage(languageId)\<close>, each with the
  number of the promise it returned; \<open>getLanguageResults\<close> is the state of those promises.
\<close>

datatype Language = Language string

record TreeSitterLanguages =
  languages :: "(string, Language option) AsyncCache"
  registeredLanguages :: "string \<rightharpoonup> string"
  nodeModulesLocation :: string
  onDidAddLanguageFired :: "(string \<times> Language) list"
  fetchLanguageCalls :: "string list"
  readFileCalls :: "(string \<times> string) list"
  addLanguageAwaiting :: "string list"
  getLanguageAwaiting :: "(nat \<times> string) list"
  getLanguageResults :: "nat \<rightharpoonup> Language option PromiseState"
  nextCall :: nat

definition newTreeSitterLanguages :: "string \<Rightarrow> (string \<rightharpoonup> string) \<Rightarrow> TreeSitterLanguages" where
  "newTreeSitterLanguages location registered =
     \<lparr>languages = Map.empty, registeredLanguages = registered, nodeModulesLocation = location,
      onDidAddLanguageFired = [], fetchLanguageCalls = [], readFileCalls = [],
      addLanguageAwaiting = [], getLanguageAwaiting = [], getLanguageResults = Map.empty,
      nextCall = 0\<rparr>"

definition MODULE_LOCATION_SUBPATH :: string where
  "MODULE_LOCATION_SUBPATH = ''@vscode/tree-sitter-wasm/wasm''"

text \<open>
  \<^verbatim>\<open>getModuleLocation\<close>: the node-modules path the environment selects (a constant of
  \<^verbatim>\<open>network.ts\<close>, here the field \<open>nodeModulesLocation\<close>), a slash and the sub-path.
\<close>

definition getModuleLocation :: "TreeSitterLanguages \<Rightarrow> string" where
  "getModuleLocation st = nodeModulesLocation st @ ''/'' @ MODULE_LOCATION_SUBPATH"

text \<open>JavaScript's \<^verbatim>\<open>!s\<close> on a string or \<^verbatim>\<open>undefined\<close>: the empty string is falsy too.\<close>

definition falsy :: "string option \<Rightarrow> bool" where
  "falsy s \<longleftrightarrow> s = None \<or> s = Some []"

definition getLanguageLocation :: "TreeSitterLanguages \<Rightarrow> string \<Rightarrow> string option" where
  "getLanguageLocation st languageId =
     (if falsy (registeredLanguages st languageId) then None else Some (getModuleLocation st))"

text \<open>
  \<^verbatim>\<open>_fetchLanguage\<close>, up to its first \<^verbatim>\<open>await\<close>: without a grammar name the promise it
  returns is already fulfilled with \<^verbatim>\<open>undefined\<close>; otherwise \<^verbatim>\<open>readFile\<close> is asked for the
  \<^verbatim>\<open>.wasm\<close> path and the promise is pending until the file service and
  \<^verbatim>\<open>Parser.Language.load\<close> answer.
\<close>

definition fetchLanguage ::
  "string \<Rightarrow> TreeSitterLanguages \<Rightarrow> Language option PromiseState \<times> TreeSitterLanguages" where
  "fetchLanguage languageId st =
     (let grammarName = registeredLanguages st languageId;
          languageLocation = getLanguageLocation st languageId;
          st1 = st\<lparr>fetchLanguageCalls := fetchLanguageCalls st @ [languageId]\<rparr>
      in if falsy grammarName \<or> falsy languageLocation then (Fulfilled None, st1)
         else (Pending,
               st1\<lparr>readFileCalls := readFileCalls st1 @
                      [(languageId,
                        the languageLocation @ ''/'' @ the grammarName @ ''.wasm'')]\<rparr>))"

text \<open>\<^verbatim>\<open>_addLanguage\<close>, up to its \<^verbatim>\<open>await\<close>.\<close>

definition addLanguage :: "string \<Rightarrow> TreeSitterLanguages \<Rightarrow> TreeSitterLanguages" where
  "addLanguage languageId st =
     (case cacheGet (languages st) languageId of
        None \<Rightarrow>
          (let (p, st1) = fetchLanguage languageId st
           in st1\<lparr>languages := cacheSet (languages st1) languageId p,
                  addLanguageAwaiting := addLanguageAwaiting st1 @ [languageId]\<rparr>)
      | Some languagePromise \<Rightarrow> st)"

text \<open>
  \<^verbatim>\<open>_addLanguage\<close> after its \<^verbatim>\<open>await\<close>: when the awaited promise is rejected the \<^verbatim>\<open>await\<close>
  throws and nothing is fired; when it is fulfilled the event is fired unless the language
  is \<^verbatim>\<open>undefined\<close>.
\<close>

definition resumeAddLanguage :: "string \<Rightarrow> TreeSitterLanguages \<Rightarrow> TreeSitterLanguages" where
  "resumeAddLanguage languageId st =
     (if languageId \<notin> set (addLanguageAwaiting st) then st
      else
        (case cacheGet (languages st) languageId of
           Some (Fulfilled language) \<Rightarrow>
             (case language of
                None \<Rightarrow> st\<lparr>addLanguageAwaiting := removeAll languageId (addLanguageAwaiting st)\<rparr>
              | Some l \<Rightarrow>
                  st\<lparr>addLanguageAwaiting := removeAll languageId (addLanguageAwaiting st),
                     onDidAddLanguageFired := onDidAddLanguageFired st @ [(languageId, l)]\<rparr>)
         | Some (Rejected e) \<Rightarrow>
             st\<lparr>addLanguageAwaiting := removeAll languageId (addLanguageAwaiting st)\<rparr>
         | _ \<Rightarrow> st))"

text \<open>
  \<^verbatim>\<open>getSyncIfCached\<close> on this cache returns \<^verbatim>\<open>Parser.Language | undefined\<close>: the
  \<^verbatim>\<open>undefined\<close> a load was fulfilled with and the \<^verbatim>\<open>undefined\<close> of a missing result are
  the same JavaScript value.
\<close>

definition cachedLanguage :: "TreeSitterLanguages \<Rightarrow> string \<Rightarrow> Language option" where
  "cachedLanguage st languageId =
     (case getSyncIfCached (languages st) languageId of
        Some (Some l) \<Rightarrow> Some l
      | _ \<Rightarrow> None)"

definition getOrInitLanguage ::
  "string \<Rightarrow> TreeSitterLanguages \<Rightarrow> Language option \<times> TreeSitterLanguages" where
  "getOrInitLanguage languageId st =
     (if isCached (languages st) languageId then (cachedLanguage st languageId, st)
      else (None, addLanguage languageId st))"

text \<open>
  \<^verbatim>\<open>getLanguage\<close>: the call returns a promise (its number is the first component). On the
  cached branch the promise is fulfilled with the cached value. Otherwise the invocation
  waits for \<^verbatim>\<open>_addLanguage\<close> and then returns \<^verbatim>\<open>this._languages.get(languageId)\<close>, a
  promise: the promise of \<^verbatim>\<open>getLanguage\<close> settles as the cached promise does
  (\<open>resumeGetLanguage\<close>). When \<^verbatim>\<open>_addLanguage\<close> itself is rejected, it is with the error of
  the cached promise, and \<^verbatim>\<open>getLanguage\<close> is rejected with that same error.
\<close>

definition getLanguage :: "string \<Rightarrow> TreeSitterLanguages \<Rightarrow> nat \<times> TreeSitterLanguages" where
  "getLanguage languageId st =
     (let call = nextCall st in
      if isCached (languages st) languageId
      then (call,
            st\<lparr>getLanguageResults :=
                 (getLanguageResults st)(call \<mapsto> Fulfilled (cachedLanguage st languageId)),
               nextCall := Suc call\<rparr>)
      else
        (let st1 = addLanguage languageId st
         in (call,
             st1\<lparr>getLanguageAwaiting := getLanguageAwaiting st1 @ [(call, languageId)],
                 getLanguageResults := (getLanguageResults st1)(call \<mapsto> Pending),
                 nextCall := Suc call\<rparr>)))"

definition resumeGetLanguage :: "nat \<Rightarrow> TreeSitterLanguages \<Rightarrow> TreeSitterLanguages" where
  "resumeGetLanguage call st =
     (case map_of (getLanguageAwaiting st) call of
        None \<Rightarrow> st
      | Some languageId \<Rightarrow>
          (case cacheGet (languages st) languageId of
             None \<Rightarrow> st
           | Some Pending \<Rightarrow> st
           | Some outcome \<Rightarrow>
               st\<lparr>getLanguageAwaiting := filter (\<lambda>c. fst c \<noteq> call) (getLanguageAwaiting st),
                  getLanguageResults := (getLanguageResults st)(call \<mapsto> outcome)\<rparr>))"

text \<open>
  \<^verbatim>\<open>TreeSitterTextModelService._addGrammar\<close> and \<^verbatim>\<open>_removeGrammar\<close> work on the very
  \<^verbatim>\<open>Map\<close> the catalog reads (\<^verbatim>\<open>_removeGrammar\<close> deletes the key \<^verbatim>\<open>'typescript'\<close>, whatever
  its argument).
\<close>

definition addGrammar :: "string \<Rightarrow> string \<Rightarrow> TreeSitterLanguages \<Rightarrow> TreeSitterLanguages" where
  "addGrammar languageId grammarName st =
     (if registeredLanguages st languageId = None
      then st\<lparr>registeredLanguages := (registeredLanguages st)(languageId \<mapsto> grammarName)\<rparr>
      else st)"

definition removeGrammar :: "string \<Rightarrow> TreeSitterLanguages \<Rightarrow> TreeSitterLanguages" where
  "removeGrammar languageId st =
     (if registeredLanguages st languageId \<noteq> None
      then st\<lparr>registeredLanguages := (registeredLanguages st)(''typescript'' := None)\<rparr>
      else st)"

text \<open>
  The events of a catalog: the calls of its methods, the answer of the grammar fetch
  (\<open>Inl\<close> an error of \<^verbatim>\<open>readFile\<close> or of the load, \<open>Inr\<close> the loaded language), and the
  continuations, each run by the JavaScript job queue some time after what it waits for.
  The model lets the continuations run in any order.
\<close>

datatype LanguagesEvent =
    CallGetOrInitLanguage string
  | CallGetLanguage string
  | FetchSettles string "error + Language"
  | SyncAccessCallback string
  | ResumeAddLanguage string
  | ResumeGetLanguage nat
  | AddGrammar string string
  | RemoveGrammar string

fun fetchOutcome :: "error + Language \<Rightarrow> Language option PromiseState" where
  "fetchOutcome (Inl e) = Rejected e"
| "fetchOutcome (Inr l) = Fulfilled (Some l)"

fun languagesStep :: "TreeSitterLanguages \<Rightarrow> LanguagesEvent \<Rightarrow> TreeSitterLanguages" where
  "languagesStep st (CallGetOrInitLanguage languageId) = snd (getOrInitLanguage languageId st)"
| "languagesStep st (CallGetLanguage languageId) = snd (getLanguage languageId st)"
| "languagesStep st (FetchSettles languageId outcome) =
     st\<lparr>languages := cacheStep (languages st) (Settles languageId (fetchOutcome outcome))\<rparr>"
| "languagesStep st (SyncAccessCallback languageId) =
     st\<lparr>languages := cacheStep (languages st) (CallbackRuns languageId)\<rparr>"
| "languagesStep st (ResumeAddLanguage languageId) = resumeAddLanguage languageId st"
| "languagesStep st (ResumeGetLanguage call) = resumeGetLanguage call st"
| "languagesStep st (AddGrammar languageId grammarName) = addGrammar languageId grammarName st"
| "languagesStep st (RemoveGrammar languageId) = removeGrammar languageId st"

definition languagesRun :: "LanguagesEvent list \<Rightarrow> TreeSitterLanguages \<Rightarrow> TreeSitterLanguages" where
  "languagesRun events st = foldl languagesStep st events"

section \<open>The parse session: \<^verbatim>\<open>TreeSitterParseResult\<close>\<close>

text \<open>
  A content change of the text model (\<^verbatim>\<open>IModelContentChange\<close>; its \<^verbatim>\<open>text\<close> field is
  \<open>changeText\<close> here) and the edit handed to \<^verbatim>\<open>Parser.Tree.edit\<close>. The fields of the edit
  carry the prefix \<open>edit\<close>, since a syntax node has fields of the same names.
\<close>

record IModelContentChange =
  range :: Range
  rangeOffset :: int
  rangeLength :: int
  changeText :: string

record Edit =
  editStartIndex :: int
  editOldEndIndex :: int
  editNewEndIndex :: int
  editStartPosition :: Point
  editOldEndPosition :: Point
  editNewEndPosition :: Point

text \<open>
  The edit \<^verbatim>\<open>_applyEdits\<close> builds from a change; \<open>getPositionAt\<close> is the text model's
  \<^verbatim>\<open>getPositionAt\<close>, which answers with a line number and a column.
\<close>

definition editOf :: "(int \<Rightarrow> int \<times> int) \<Rightarrow> IModelContentChange \<Rightarrow> Edit" where
  "editOf getPositionAt change =
     (let newEndOffset = rangeOffset change + int (length (changeText change));
          newEndPosition = getPositionAt newEndOffset
      in \<lparr>editStartIndex = rangeOffset change,
          editOldEndIndex = rangeOffset change + rangeLength change,
          editNewEndIndex = rangeOffset change + int (length (changeText change)),
          editStartPosition =
            \<lparr>row = startLineNumber (range change) - 1, column = startColumn (range change) - 1\<rparr>,
          editOldEndPosition =
            \<lparr>row = endLineNumber (range change) - 1, column = endColumn (range change) - 1\<rparr>,
          editNewEndPosition = \<lparr>row = fst newEndPosition - 1, column = snd newEndPosition - 1\<rparr>\<rparr>)"

text \<open>
  The session. \<open>tree\<close>, \<open>isDisposed\<close> and \<open>newEdits\<close> are the fields \<^verbatim>\<open>_tree\<close>,
  \<^verbatim>\<open>_isDisposed\<close> and \<^verbatim>\<open>_newEdits\<close>. The promise chain \<^verbatim>\<open>_onDidChangeContentQueue\<close> is the
  list of the callbacks chained on it that have not started (\<open>queue\<close>, oldest first) and
  the callback in flight (\<open>running\<close>): a callback starts only when the one before it has
  settled. A callback is a \<open>Job\<close>: the \<^verbatim>\<open>changedNodes\<close> it will resolve with and the number
  of the promise \<^verbatim>\<open>onDidChangeContent\<close> returned for it. \<open>promises\<close> is the state of the
  promises returned by \<^verbatim>\<open>onDidChangeContent\<close>. \<open>loggedErrors\<close> are the calls of
  \<^verbatim>\<open>_logService.error\<close> made by the \<^verbatim>\<open>catch\<close> of the queue, \<open>commits\<close> the assignments
  \<^verbatim>\<open>this.tree = tree\<close> made by \<^verbatim>\<open>_parseAndUpdateTree\<close>, \<open>telemetry\<close> the calls of
  \<^verbatim>\<open>sendParseTimeTelemetry\<close> (parse type and passes; the elapsed time is not modelled).
  \<^verbatim>\<open>delete()\<close> frees memory of the library and is not modelled.
\<close>

datatype TelemetryParseType = Full | Incremental

record Job =
  changedNodes :: "RangeChange list option"
  promiseId :: nat

text \<open>
  Where the callback in flight is suspended: in \<^verbatim>\<open>_parseAndYield\<close> at
  \<^verbatim>\<open>await new Promise(resolve => setTimeout0(resolve))\<close>, with the local \<^verbatim>\<open>tree\<close> and
  \<^verbatim>\<open>passes\<close> (\<open>Yielding\<close>), or in \<^verbatim>\<open>_parseAndUpdateTree\<close> at \<^verbatim>\<open>await this._parse(model)\<close>
  once \<^verbatim>\<open>_parseAndYield\<close> has returned (\<open>Returned\<close> the value it returned).
\<close>

datatype Phase =
    Yielding TelemetryParseType "SyntaxNode option" nat
  | Returned "SyntaxNode option"

record TreeSitterParseResult =
  tree :: "SyntaxNode option"
  isDisposed :: bool
  newEdits :: bool
  queue :: "Job list"
  running :: "(Job \<times> Phase) option"
  promises :: "nat \<rightharpoonup> RangeChange list option PromiseState"
  nextPromise :: nat
  loggedErrors :: "error list"
  commits :: "SyntaxNode option list"
  telemetry :: "(TelemetryParseType \<times> nat) list"

definition newTreeSitterParseResult :: TreeSitterParseResult where
  "newTreeSitterParseResult =
     \<lparr>tree = None, isDisposed = False, newEdits = True, queue = [], running = None,
      promises = Map.empty, nextPromise = 0, loggedErrors = [], commits = [], telemetry = []\<rparr>"

definition dispose :: "TreeSitterParseResult \<Rightarrow> TreeSitterParseResult" where
  "dispose s = s\<lparr>isDisposed := True\<rparr>"

text \<open>
  \<^verbatim>\<open>_applyEdits\<close>. \<open>treeEdit\<close> is \<^verbatim>\<open>Parser.Tree.edit\<close> of the tree-sitter library, a
  parameter of the model.
\<close>

fun applyEdits ::
  "(Edit \<Rightarrow> SyntaxNode \<Rightarrow> SyntaxNode) \<Rightarrow> (int \<Rightarrow> int \<times> int) \<Rightarrow> IModelContentChange list \<Rightarrow>
   TreeSitterParseResult \<Rightarrow> TreeSitterParseResult" where
  "applyEdits treeEdit getPositionAt [] s = s"
| "applyEdits treeEdit getPositionAt (change # changes) s =
     applyEdits treeEdit getPositionAt changes
       (s\<lparr>tree := map_option (treeEdit (editOf getPositionAt change)) (tree s),
          newEdits := True\<rparr>)"

text \<open>
  The diff \<^verbatim>\<open>onDidChangeContent\<close> computes before it touches the queue:
  \<^verbatim>\<open>undefined\<close> unless both trees exist; an error when \<^verbatim>\<open>findChangedNodes\<close> throws.
\<close>

definition changedRanges ::
  "SyntaxNode option \<Rightarrow> SyntaxNode option \<Rightarrow> error + RangeChange list option" where
  "changedRanges newTree oldTree =
     (case (newTree, oldTree) of
        (Some t, Some t') \<Rightarrow>
          (case findChangedNodes t t' of
             Inl e \<Rightarrow> Inl e
           | Inr changed \<Rightarrow> Inr (calculateRangeChange (Some changed)))
      | _ \<Rightarrow> Inr None)"

text \<open>
  \<^verbatim>\<open>onDidChangeContent\<close>, an \<^verbatim>\<open>async\<close> method: the call returns a promise (its number is
  the first component). An error thrown before the \<^verbatim>\<open>return\<close> rejects that promise.
  Otherwise the promise is the \<^verbatim>\<open>new Promise(resolve => ...)\<close>, whose executor chains the
  callback on the queue; the callback itself runs later.
\<close>

definition onDidChangeContent ::
  "(Edit \<Rightarrow> SyntaxNode \<Rightarrow> SyntaxNode) \<Rightarrow> (int \<Rightarrow> int \<times> int) \<Rightarrow> IModelContentChange list \<Rightarrow>
   TreeSitterParseResult \<Rightarrow> nat \<times> TreeSitterParseResult" where
  "onDidChangeContent treeEdit getPositionAt changes s =
     (let oldTree = tree s;
          s1 = applyEdits treeEdit getPositionAt changes s;
          p = nextPromise s1
      in case changedRanges (tree s1) oldTree of
           Inl e \<Rightarrow>
             (p, s1\<lparr>promises := (promises s1)(p \<mapsto> Rejected e), nextPromise := Suc p\<rparr>)
         | Inr changed \<Rightarrow>
             (p, s1\<lparr>queue := queue s1 @ [\<lparr>changedNodes = changed, promiseId = p\<rparr>],
                    promises := (promises s1)(p \<mapsto> Pending),
                    nextPromise := Suc p\<rparr>))"

text \<open>
  The queue's \<^verbatim>\<open>catch\<close>: the error of the callback is logged, the callback is over, and
  its \<^verbatim>\<open>resolve\<close> has not been called.
\<close>

definition caught :: "error \<Rightarrow> TreeSitterParseResult \<Rightarrow> TreeSitterParseResult" where
  "caught e s = s\<lparr>running := None, loggedErrors := loggedErrors s @ [e]\<rparr>"

text \<open>
  The queue starts its next callback. A disposed session returns at once. Otherwise
  \<^verbatim>\<open>_parseAndUpdateTree\<close>, \<^verbatim>\<open>_parse\<close> and \<^verbatim>\<open>_parseAndYield\<close> run up to the first \<^verbatim>\<open>await\<close>:
  the parse type is chosen, \<^verbatim>\<open>_newEdits\<close> is cleared and the parser makes its first pass.
  \<open>parsed\<close> is what that pass leaves in the local \<^verbatim>\<open>tree\<close>: a tree, or nothing when
  \<^verbatim>\<open>parser.parse\<close> threw (its time slice ran out). \<open>thrown\<close> is an error thrown by an external
  call of the segment (\<^verbatim>\<open>model.getLanguageId()\<close> is the first), if any.
\<close>

definition startNext ::
  "error option \<Rightarrow> SyntaxNode option \<Rightarrow> TreeSitterParseResult \<Rightarrow> TreeSitterParseResult" where
  "startNext thrown parsed s =
     (if running s \<noteq> None then s
      else
        (case queue s of
           [] \<Rightarrow> s
         | job # rest \<Rightarrow>
             (let s1 = s\<lparr>queue := rest\<rparr> in
              if isDisposed s1 then s1
              else
                (case thrown of
                   Some e \<Rightarrow> caught e s1
                 | None \<Rightarrow>
                     s1\<lparr>newEdits := False,
                        running :=
                          Some (job,
                            Yielding (if tree s1 \<noteq> None then Incremental else Full) parsed 1)\<rparr>))))"

text \<open>
  \<^verbatim>\<open>_parseAndYield\<close> after the \<^verbatim>\<open>await\<close> of a pass: the disposal check, then the loop
  condition \<^verbatim>\<open>!tree && !this._newEdits\<close>; the loop either makes another pass (\<open>parsed\<close>) or
  sends the telemetry and returns the tree. \<open>modelDisposed\<close> is the answer of
  \<^verbatim>\<open>model.isDisposed()\<close>.
\<close>

definition resume ::
  "error option \<Rightarrow> bool \<Rightarrow> SyntaxNode option \<Rightarrow> TreeSitterParseResult \<Rightarrow> TreeSitterParseResult" where
  "resume thrown modelDisposed parsed s =
     (case running s of
        Some (job, Yielding parseType t passes) \<Rightarrow>
          (case thrown of
             Some e \<Rightarrow> caught e s
           | None \<Rightarrow>
               if modelDisposed \<or> isDisposed s then s\<lparr>running := Some (job, Returned None)\<rparr>
               else if t = None \<and> \<not> newEdits s
               then s\<lparr>running := Some (job, Yielding parseType parsed (Suc passes))\<rparr>
               else s\<lparr>telemetry := telemetry s @ [(parseType, passes)],
                      running := Some (job, Returned t)\<rparr>)
      | _ \<Rightarrow> s)"

text \<open>
  \<^verbatim>\<open>_parseAndUpdateTree\<close> after its \<^verbatim>\<open>await\<close>, and the rest of the callback:
  \<^verbatim>\<open>if (!this._newEdits) { this.tree = tree; }\<close> and \<^verbatim>\<open>resolve(changedNodes)\<close>.
  \<open>thrown\<close> is an error thrown by the assignment (the setter calls into the library), if
  any.
\<close>

definition commit :: "error option \<Rightarrow> TreeSitterParseResult \<Rightarrow> TreeSitterParseResult" where
  "commit thrown s =
     (case running s of
        Some (job, Returned t) \<Rightarrow>
          (if \<not> newEdits s \<and> thrown \<noteq> None then caught (the thrown) s
           else
             (let s1 = (if \<not> newEdits s then s\<lparr>tree := t, commits := commits s @ [t]\<rparr> else s)
              in s1\<lparr>promises := (promises s1)(promiseId job \<mapsto> Fulfilled (changedNodes job)),
                     running := None\<rparr>))
      | _ \<Rightarrow> s)"

text \<open>
  The events of a session: a call of \<^verbatim>\<open>onDidChangeContent\<close> (with the model's
  \<^verbatim>\<open>getPositionAt\<close> and the changes), the three segments of a queued callback, and
  \<^verbatim>\<open>dispose\<close>. JavaScript runs one segment at a time; the events can come in any order.
\<close>

datatype SessionEvent =
    ChangeContent "int \<Rightarrow> int \<times> int" "IModelContentChange list"
  | StartNext "error option" "SyntaxNode option"
  | Resume "error option" bool "SyntaxNode option"
  | Commit "error option"
  | Dispose

fun sessionStep ::
  "(Edit \<Rightarrow> SyntaxNode \<Rightarrow> SyntaxNode) \<Rightarrow> TreeSitterParseResult \<Rightarrow> SessionEvent \<Rightarrow>
   TreeSitterParseResult" where
  "sessionStep treeEdit s (ChangeContent getPositionAt changes) =
     snd (onDidChangeContent treeEdit getPositionAt changes s)"
| "sessionStep treeEdit s (StartNext thrown parsed) = startNext thrown parsed s"
| "sessionStep treeEdit s (Resume thrown modelDisposed parsed) = resume thrown modelDisposed parsed s"
| "sessionStep treeEdit s (Commit thrown) = commit thrown s"
| "sessionStep treeEdit s Dispose = dispose s"

definition sessionRun ::
  "(Edit \<Rightarrow> SyntaxNode \<Rightarrow> SyntaxNode) \<Rightarrow> SessionEvent list \<Rightarrow> TreeSitterParseResult \<Rightarrow>
   TreeSitterParseResult" where
  "sessionRun treeEdit events s = foldl (sessionStep treeEdit) s events"

text \<open>The callbacks of a session that have not finished: the one in flight, then the queue.\<close>

definition jobs :: "TreeSitterParseResult \<Rightarrow> Job list" where
  "jobs s = (case running s of None \<Rightarrow> [] | Some (job, phase) \<Rightarrow> [job]) @ queue s"

section \<open>Example data\<close>

text \<open>
  A change unit whose new node starts at the zero-based position (row 2, column 4), and a
  pair of trees of the same shape: in the new tree the root, the node 1, its child 2 and
  the node 4 below the unmarked node 3 carry the has-changes marker.
\<close>

definition exampleUnit :: ChangedNode where
  "exampleUnit =
     \<lparr>new = Node \<lparr>nid = 7, hasChanges = True,
                  startPosition = \<lparr>row = 2, column = 4\<rparr>, endPosition = \<lparr>row = 2, column = 9\<rparr>,
                  startIndex = 30, endIndex = 35\<rparr> [],
      old = Node \<lparr>nid = 7, hasChanges = False,
                  startPosition = \<lparr>row = 2, column = 4\<rparr>, endPosition = \<lparr>row = 2, column = 8\<rparr>,
                  startIndex = 30, endIndex = 34\<rparr> []\<rparr>"

definition leafInfo :: "nat \<Rightarrow> bool \<Rightarrow> int \<Rightarrow> int \<Rightarrow> NodeInfo" where
  "leafInfo i marked from to =
     \<lparr>nid = i, hasChanges = marked,
      startPosition = \<lparr>row = 0, column = from\<rparr>, endPosition = \<lparr>row = 0, column = to\<rparr>,
      startIndex = from, endIndex = to\<rparr>"

definition exampleNew :: SyntaxNode where
  "exampleNew =
     Node (leafInfo 0 True 0 9)
       [Node (leafInfo 1 True 0 5) [Node (leafInfo 2 True 0 5) []],
        Node (leafInfo 3 False 5 9) [Node (leafInfo 4 True 5 9) []]]"

definition exampleOld :: SyntaxNode where
  "exampleOld =
     Node (leafInfo 0 False 0 8)
       [Node (leafInfo 1 False 0 4) [Node (leafInfo 2 False 0 4) []],
        Node (leafInfo 3 False 4 8) [Node (leafInfo 4 False 4 8) []]]"

text \<open>
  A catalog that knows the grammar of \<^verbatim>\<open>typescript\<close>, and a run in which the grammar file
  cannot be read: \<^verbatim>\<open>getLanguage\<close> is called, the fetch fails, the continuations run, and
  \<^verbatim>\<open>getLanguage\<close> is called once more.
\<close>

definition typescriptCatalog :: TreeSitterLanguages where
  "typescriptCatalog =
     newTreeSitterLanguages ''node_modules'' [''typescript'' \<mapsto> ''tree-sitter-typescript'']"

definition failedFetch :: "LanguagesEvent list" where
  "failedFetch =
     [CallGetLanguage ''typescript'',
      FetchSettles ''typescript'' (Inl (Error ''ENOENT'')),
      ResumeAddLanguage ''typescript'',
      SyncAccessCallback ''typescript'',
      ResumeGetLanguage 0,
      CallGetLanguage ''typescript'']"

text \<open>
  A session for the examples: a tree edit that yields the marked tree \<open>exampleNew\<close>, a
  text model whose text is one line, a change that inserts one character, the events of a
  first parse that yields a given tree, the session after the first parse of \<open>exampleOld\<close>,
  and the ranges and the queued callback of the change.
\<close>

definition exampleEdit :: "Edit \<Rightarrow> SyntaxNode \<Rightarrow> SyntaxNode" where
  "exampleEdit e t = exampleNew"

definition examplePosition :: "int \<Rightarrow> int \<times> int" where
  "examplePosition offset = (1, offset + 1)"

definition exampleChange :: IModelContentChange where
  "exampleChange =
     \<lparr>range = \<lparr>startLineNumber = 1, startColumn = 1, endLineNumber = 1, endColumn = 1\<rparr>,
      rangeOffset = 0, rangeLength = 0, changeText = ''x''\<rparr>"

definition exampleRanges :: "RangeChange list" where
  "exampleRanges =
     [\<lparr>newRange = \<lparr>startLineNumber = 1, startColumn = 1, endLineNumber = 1, endColumn = 6\<rparr>,
       oldRangeLength = 4\<rparr>,
      \<lparr>newRange = \<lparr>startLineNumber = 1, startColumn = 6, endLineNumber = 1, endColumn = 10\<rparr>,
       oldRangeLength = 4\<rparr>]"

definition firstParse :: "SyntaxNode \<Rightarrow> SessionEvent list" where
  "firstParse t =
     [ChangeContent examplePosition [], StartNext None (Some t), Resume None False None,
      Commit None]"

definition exampleSession :: TreeSitterParseResult where
  "exampleSession = sessionRun exampleEdit (firstParse exampleOld) newTreeSitterParseResult"

definition exampleJob :: Job where
  "exampleJob = \<lparr>changedNodes = Some exampleRanges, promiseId = 1\<rparr>"


definition exampleAfterChange :: TreeSitterParseResult where
  "exampleAfterChange =
     snd (onDidChangeContent exampleEdit examplePosition [exampleChange] exampleSession)"

text \<open>
  The events up to the report of the change, and events that follow a callback that is
  over: a late timer and commit, a further notification and its reparse.
\<close>

definition changeReported :: "SessionEvent list" where
  "changeReported = firstParse exampleOld @ [ChangeContent examplePosition [exampleChange]]"

definition laterEvents :: "SessionEvent list" where
  "laterEvents =
     [Resume None False (Some exampleNew), Commit None, ChangeContent examplePosition [],
      StartNext None (Some exampleNew), Resume None False None, Commit None]"

text \<open>
  The events that do not belong to the queued callbacks (notifications and disposal), and
  the example session at the point where the first pass of the queued reparse has produced
  the tree \<open>exampleNew\<close>.
\<close>

definition isExternal :: "SessionEvent \<Rightarrow> bool" where
  "isExternal ev =
     (case ev of ChangeContent getPositionAt changes \<Rightarrow> True | Dispose \<Rightarrow> True | _ \<Rightarrow> False)"

definition examplePass :: TreeSitterParseResult where
  "examplePass = sessionRun exampleEdit [StartNext None (Some exampleNew)] exampleAfterChange"

text \<open>
  Disagreement of the two cursors. \<open>climbDisagrees\<close>: within
  \<^verbatim>\<open>nextSiblingOrParentSibling\<close>, the two cursors answer differently to the
  \<^verbatim>\<open>gotoNextSibling\<close> or \<^verbatim>\<open>gotoParent\<close> the loop issues, at the node it starts from or at
  an ancestor it has climbed to. \<open>stepDisagrees\<close>: the cursors answer differently to the
  step one round of \<^verbatim>\<open>findChangedNodes\<close> issues. \<open>visits\<close>: the states the traversal
  goes through from its start, round by round.
\<close>

inductive climbDisagrees :: "cursors \<Rightarrow> bool" where
  sibling: "nextSibling (fst cs) \<noteq> None \<Longrightarrow>
     fst (cursorGotoNextSibling (fst cs)) \<noteq> fst (cursorGotoNextSibling (snd cs)) \<Longrightarrow>
     climbDisagrees cs"
| parent: "nextSibling (fst cs) = None \<Longrightarrow> parent (fst cs) \<noteq> None \<Longrightarrow>
     fst (cursorGotoParent (fst cs)) \<noteq> fst (cursorGotoParent (snd cs)) \<Longrightarrow>
     climbDisagrees cs"
| climb: "nextSibling (fst cs) = None \<Longrightarrow> parent (fst cs) \<noteq> None \<Longrightarrow>
     gotoParent cs = Inr (b, cs') \<Longrightarrow> climbDisagrees cs' \<Longrightarrow>
     climbDisagrees cs"

definition stepDisagrees :: "nat \<Rightarrow> cursors \<Rightarrow> bool" where
  "stepDisagrees rootId cs \<longleftrightarrow>
     (if canGoChild rootId cs
      then fst (cursorGotoFirstChild (fst cs)) \<noteq> fst (cursorGotoFirstChild (snd cs))
      else climbDisagrees cs)"

inductive visits :: "nat \<Rightarrow> cursors \<Rightarrow> cursors \<Rightarrow> bool" for rootId start where
  start: "visits rootId start start"
| round: "visits rootId start cs \<Longrightarrow>
     (if canGoChild rootId cs then gotoFirstChild cs else nextSiblingOrParentSibling cs) =
       Inr (True, cs') \<Longrightarrow>
     visits rootId start cs'"

text \<open>
  An old tree that is a single node, and the session that held it when the edit produced
  the tree \<open>exampleNew\<close>, which has children: the two trees are out of sync.
\<close>

definition exampleLeaf :: SyntaxNode where
  "exampleLeaf = Node (leafInfo 0 False 0 8) []"

definition exampleDesync :: TreeSitterParseResult where
  "exampleDesync =
     snd (onDidChangeContent exampleEdit examplePosition [exampleChange]
            (sessionRun exampleEdit (firstParse exampleLeaf) newTreeSitterParseResult))"

section \<open>Invariants\<close>

text \<open>
  The catalog, key by key: \<^verbatim>\<open>_fetchLanguage\<close> has been called once for a key that has a
  cache entry and never for another, and \<^verbatim>\<open>readFile\<close> no more often; the invocation of
  \<^verbatim>\<open>_addLanguage\<close> that made the entry waits as long as the promise is pending; and what
  has been fired for the key is decided by how the promise settled and by whether that
  invocation has resumed.
\<close>

definition firedFor :: "TreeSitterLanguages \<Rightarrow> string \<Rightarrow> (string \<times> Language) list" where
  "firedFor st languageId = filter (\<lambda>x. fst x = languageId) (onDidAddLanguageFired st)"

definition keyInv :: "TreeSitterLanguages \<Rightarrow> string \<Rightarrow> bool" where
  "keyInv st k \<longleftrightarrow>
     count_list (fetchLanguageCalls st) k = (if languages st k = None then 0 else 1) \<and>
     length (filter (\<lambda>x. fst x = k) (readFileCalls st)) \<le> count_list (fetchLanguageCalls st) k \<and>
     (case languages st k of
        None \<Rightarrow> k \<notin> set (addLanguageAwaiting st) \<and> firedFor st k = []
      | Some p \<Rightarrow>
          (case promise p of
             Pending \<Rightarrow> k \<in> set (addLanguageAwaiting st) \<and> firedFor st k = []
           | Rejected e \<Rightarrow> firedFor st k = []
           | Fulfilled None \<Rightarrow> firedFor st k = []
           | Fulfilled (Some l) \<Rightarrow>
               firedFor st k = (if k \<in> set (addLanguageAwaiting st) then [] else [(k, l)])))"

text \<open>
  The session. \<open>sessionInv\<close>: the unfinished callbacks carry distinct promises, each one
  allocated and pending. \<open>abandoned p\<close>: the promise \<open>p\<close> is pending and no unfinished
  callback will resolve it. \<open>carries p r\<close>: the promise \<open>p\<close> is pending or fulfilled with
  \<open>r\<close>, and a callback that will resolve it does so with \<open>r\<close>.
\<close>

definition sessionInv :: "TreeSitterParseResult \<Rightarrow> bool" where
  "sessionInv s \<longleftrightarrow>
     distinct (map promiseId (jobs s)) \<and>
     (\<forall>job \<in> set (jobs s). promiseId job < nextPromise s \<and> promises s (promiseId job) = Some Pending)"

definition abandoned :: "nat \<Rightarrow> TreeSitterParseResult \<Rightarrow> bool" where
  "abandoned p s \<longleftrightarrow>
     p < nextPromise s \<and> promises s p = Some Pending \<and> p \<notin> promiseId ` set (jobs s)"


section \<open>The changed-node diff\<close>

lemma nodesOf_child: "c \<in> set (children n) \<Longrightarrow> set (nodesOf c) \<subseteq> set (nodesOf n)"
  by (cases n) auto

lemma nextSiblingOrParentSibling_top:
  "nextSibling (fst cs) = None \<Longrightarrow> parent (fst cs) = None \<Longrightarrow>
   nextSiblingOrParentSibling cs = Inr (False, cs)"
  by (subst nextSiblingOrParentSibling.simps) simp

lemma nextSiblingOrParentSibling_last:
  assumes "\<not> Suc k < childCount n"
  shows "nextSiblingOrParentSibling (TreeCursor c ((n, k) # stN), TreeCursor c' ((n', k') # stO)) =
         nextSiblingOrParentSibling (TreeCursor n stN, TreeCursor n' stO)"
proof -
  let ?up = "(TreeCursor n stN, TreeCursor n' stO)"
  have "nextSiblingOrParentSibling (TreeCursor c ((n, k) # stN), TreeCursor c' ((n', k') # stO)) =
        (if nextSibling (fst ?up) \<noteq> None \<or> parent (fst ?up) \<noteq> None
         then nextSiblingOrParentSibling ?up else Inr (False, ?up))"
    using assms by (subst nextSiblingOrParentSibling.simps) (simp add: gotoParent_def)
  also have "\<dots> = nextSiblingOrParentSibling ?up"
    using nextSiblingOrParentSibling_top[of ?up] by auto
  finally show ?thesis .
qed

lemma nextSiblingOrParentSibling_next:
  assumes "Suc k < childCount n"
  shows "nextSiblingOrParentSibling (TreeCursor c ((n, k) # stN), TreeCursor c' ((n', k) # stO)) =
         (if Suc k < childCount n'
          then Inr (True, (TreeCursor (children n ! Suc k) ((n, Suc k) # stN),
                           TreeCursor (children n' ! Suc k) ((n', Suc k) # stO)))
          else Inl outOfSync)"
  using assms by (subst nextSiblingOrParentSibling.simps) (simp add: gotoNextSibling_def)

lemma afterNode_last:
  "\<not> Suc k < childCount n \<Longrightarrow>
   afterNode rootId (TreeCursor c ((n, k) # stN), TreeCursor c' ((n', k') # stO)) acc =
   afterNode rootId (TreeCursor n stN, TreeCursor n' stO) acc"
  by (simp add: afterNode_def nextSiblingOrParentSibling_last)

lemma afterNode_next:
  "Suc k < childCount n \<Longrightarrow>
   afterNode rootId (TreeCursor c ((n, k) # stN), TreeCursor c' ((n', k) # stO)) acc =
   (if Suc k < childCount n'
    then findChangedNodes_loop rootId
           (TreeCursor (children n ! Suc k) ((n, Suc k) # stN),
            TreeCursor (children n' ! Suc k) ((n', Suc k) # stO)) acc
    else Inl outOfSync)"
  by (simp add: afterNode_def nextSiblingOrParentSibling_next)

text \<open>One round of the loop, with the two ways it goes on.\<close>

lemma loop_unfold:
  "findChangedNodes_loop rootId cs acc =
     (if canGoChild rootId cs
      then (case gotoFirstChild cs of
              Inl e \<Rightarrow> Inl e
            | Inr (nxt, cs') \<Rightarrow>
                if nxt then findChangedNodes_loop rootId cs' (pushChanged rootId cs acc)
                else Inr (pushChanged rootId cs acc))
      else afterNode rootId cs (pushChanged rootId cs acc))"
  by (subst findChangedNodes_loop.simps) (simp add: afterNode_def)

lemma loop_descend:
  assumes "\<not> isChanged rootId (TreeCursor n stN, TreeCursor n' stO)"
    and "children n \<noteq> []"
  shows "findChangedNodes_loop rootId (TreeCursor n stN, TreeCursor n' stO) acc =
     (if children n' = [] then Inl outOfSync
      else findChangedNodes_loop rootId
             (TreeCursor (children n ! 0) ((n, 0) # stN),
              TreeCursor (children n' ! 0) ((n', 0) # stO)) acc)"
  using assms
  by (subst loop_unfold)
    (auto simp: canGoChild_def pushChanged_def gotoFirstChild_def split: list.splits)

lemma loop_stay:
  assumes "isChanged rootId cs \<or> children (currentNode (fst cs)) = []"
  shows "findChangedNodes_loop rootId cs acc = afterNode rootId cs (pushChanged rootId cs acc)"
  using assms by (subst loop_unfold) (auto simp: canGoChild_def)

text \<open>
  The children of a node, from the child \<open>k\<close> on: the loop collects what \<open>diffChildren\<close>
  says and then leaves the parent, provided it treats every child as \<open>diffNode\<close> says.
\<close>

lemma loop_children:
  assumes IH: "\<And>c c' stN stO acc. c \<in> set (children n) \<Longrightarrow>
      findChangedNodes_loop rootId (TreeCursor c stN, TreeCursor c' stO) acc =
      (case diffNode False c c' of
         Inl e \<Rightarrow> Inl e
       | Inr us \<Rightarrow> afterNode rootId (TreeCursor c stN, TreeCursor c' stO) (acc @ us))"
  shows "k < childCount n \<Longrightarrow> k < childCount n' \<Longrightarrow>
      findChangedNodes_loop rootId
        (TreeCursor (children n ! k) ((n, k) # stN), TreeCursor (children n' ! k) ((n', k) # stO)) acc =
      (case diffChildren (drop k (children n)) (drop k (children n')) of
         Inl e \<Rightarrow> Inl e
       | Inr us \<Rightarrow> afterNode rootId (TreeCursor n stN, TreeCursor n' stO) (acc @ us))"
proof (induction "childCount n - k" arbitrary: k acc)
  case 0
  then show ?case by simp
next
  case (Suc m)
  let ?c = "children n ! k" and ?c' = "children n' ! k"
  have dn: "drop k (children n) = ?c # drop (Suc k) (children n)"
    using Suc.prems by (simp add: Cons_nth_drop_Suc)
  have dn': "drop k (children n') = ?c' # drop (Suc k) (children n')"
    using Suc.prems by (simp add: Cons_nth_drop_Suc)
  have mem: "?c \<in> set (children n)" using Suc.prems by simp
  show ?case
  proof (cases "diffNode False ?c ?c'")
    case (Inl e)
    then show ?thesis by (simp add: IH[OF mem] dn dn')
  next
    case (Inr us)
    show ?thesis
    proof (cases "Suc k < childCount n")
      case False
      then have "drop (Suc k) (children n) = []" by simp
      then show ?thesis
        using Inr False by (simp add: IH[OF mem] dn dn' afterNode_last)
    next
      case True
      then have ne: "drop (Suc k) (children n) \<noteq> []" by simp
      show ?thesis
      proof (cases "Suc k < childCount n'")
        case False
        then have "drop (Suc k) (children n') = []" by simp
        then show ?thesis
          using Inr True False ne by (simp add: IH[OF mem] dn dn' afterNode_next)
      next
        case k': True
        then have ne': "drop (Suc k) (children n') \<noteq> []" by simp
        have m: "m = childCount n - Suc k" using Suc.hyps(2) by simp
        note step = Suc.hyps(1)[OF m True k', of "acc @ us"]
        show ?thesis
          using Inr True k' ne ne'
          by (simp add: IH[OF mem] dn dn' afterNode_next step split: sum.splits)
      qed
    qed
  qed
qed

text \<open>A node that is not the root: induction on the new tree.\<close>

lemma loop_node:
  assumes "\<forall>m \<in> set (nodesOf n). nid (info m) \<noteq> rootId"
  shows "findChangedNodes_loop rootId (TreeCursor n stN, TreeCursor n' stO) acc =
      (case diffNode False n n' of
         Inl e \<Rightarrow> Inl e
       | Inr us \<Rightarrow> afterNode rootId (TreeCursor n stN, TreeCursor n' stO) (acc @ us))"
  using assms
proof (induction n arbitrary: n' stN stO acc)
  case (Node i cs)
  let ?n = "Node i cs"
  let ?cs = "(TreeCursor ?n stN, TreeCursor n' stO)"
  have idn: "nid i \<noteq> rootId" using Node.prems by simp
  have IH: "\<And>c c' stN stO acc. c \<in> set (children ?n) \<Longrightarrow>
      findChangedNodes_loop rootId (TreeCursor c stN, TreeCursor c' stO) acc =
      (case diffNode False c c' of
         Inl e \<Rightarrow> Inl e
       | Inr us \<Rightarrow> afterNode rootId (TreeCursor c stN, TreeCursor c' stO) (acc @ us))"
  proof -
    fix c c' stN stO acc
    assume c: "c \<in> set (children ?n)"
    then have "\<forall>m \<in> set (nodesOf c). nid (info m) \<noteq> rootId"
      using Node.prems nodesOf_child[OF c] by blast
    with c show "findChangedNodes_loop rootId (TreeCursor c stN, TreeCursor c' stO) acc =
      (case diffNode False c c' of
         Inl e \<Rightarrow> Inl e
       | Inr us \<Rightarrow> afterNode rootId (TreeCursor c stN, TreeCursor c' stO) (acc @ us))"
      using Node.IH by simp
  qed
  show ?case
  proof (cases "hasChanges i")
    case True
    then have "isChanged rootId ?cs" using idn by (simp add: isChanged_def)
    then show ?thesis using True
      by (simp add: loop_stay pushChanged_def)
  next
    case nc: False
    then have ni: "\<not> isChanged rootId ?cs" by (simp add: isChanged_def)
    show ?thesis
    proof (cases "cs = []")
      case True
      then show ?thesis using nc ni by (simp add: loop_stay pushChanged_def)
    next
      case ne: False
      show ?thesis
      proof (cases "children n' = []")
        case True
        then show ?thesis using nc ne loop_descend[OF ni, of acc] by simp
      next
        case False
        have "findChangedNodes_loop rootId ?cs acc =
              findChangedNodes_loop rootId
                (TreeCursor (children ?n ! 0) ((?n, 0) # stN),
                 TreeCursor (children n' ! 0) ((n', 0) # stO)) acc"
          using False ne loop_descend[OF ni, of acc] by simp
        also have "\<dots> = (case diffChildren (drop 0 (children ?n)) (drop 0 (children n')) of
             Inl e \<Rightarrow> Inl e
           | Inr us \<Rightarrow> afterNode rootId ?cs (acc @ us))"
          using False ne by (intro loop_children IH) simp_all
        finally show ?thesis using nc ne False by simp
      qed
    qed
  qed
qed

lemma findChangedNodes_diffNode:
  assumes "\<forall>m \<in> set (descendants newTree). nid (info m) \<noteq> nid (info newTree)"
  shows "findChangedNodes newTree oldTree = diffNode True newTree oldTree"
proof -
  let ?rootId = "nid (info newTree)"
  let ?cs = "(TreeCursor newTree [], TreeCursor oldTree [])"
  have IH: "\<And>c c' stN stO acc. c \<in> set (children newTree) \<Longrightarrow>
      findChangedNodes_loop ?rootId (TreeCursor c stN, TreeCursor c' stO) acc =
      (case diffNode False c c' of
         Inl e \<Rightarrow> Inl e
       | Inr us \<Rightarrow> afterNode ?rootId (TreeCursor c stN, TreeCursor c' stO) (acc @ us))"
    using assms by (intro loop_node) (auto simp: descendants_def)
  have top: "\<And>acc. afterNode ?rootId ?cs acc = Inr acc"
    by (simp add: afterNode_def nextSiblingOrParentSibling_top)
  have ni: "\<not> isChanged ?rootId ?cs" by (simp add: isChanged_def)
  have spec: "diffNode True newTree oldTree =
      (if children newTree = [] then Inr []
       else if children oldTree = [] then Inl outOfSync
       else diffChildren (children newTree) (children oldTree))"
    by (cases newTree) simp
  show ?thesis
  proof (cases "children newTree = []")
    case True
    then show ?thesis using ni top
      by (simp add: findChangedNodes_def walk_def loop_stay pushChanged_def spec)
  next
    case ne: False
    show ?thesis
    proof (cases "children oldTree = []")
      case True
      then show ?thesis using ne loop_descend[OF ni, of "[]"]
        by (simp add: findChangedNodes_def walk_def spec)
    next
      case False
      have "findChangedNodes newTree oldTree =
            findChangedNodes_loop ?rootId
              (TreeCursor (children newTree ! 0) ((newTree, 0) # []),
               TreeCursor (children oldTree ! 0) ((oldTree, 0) # [])) []"
        using False ne loop_descend[OF ni, of "[]"] by (simp add: findChangedNodes_def walk_def)
      also have "\<dots> = (case diffChildren (drop 0 (children newTree)) (drop 0 (children oldTree)) of
           Inl e \<Rightarrow> Inl e
         | Inr us \<Rightarrow> afterNode ?rootId ?cs ([] @ us))"
        using False ne by (intro loop_children IH) simp_all
      finally show ?thesis
        using ne False top by (simp add: spec split: sum.splits)
    qed
  qed
qed

text \<open>
  Claim C7. The cursor traversal of \<^verbatim>\<open>findChangedNodes\<close> computes exactly the structural
  diff \<open>diffNode\<close>: every node of the new tree that carries the has-changes marker, is not
  the root and has no recorded ancestor yields exactly one change unit, the node paired
  with the old node at the same place; the traversal does not go below a recorded node,
  so none of its descendants yields a unit; a node without the marker (and the root) yields
  the units of its children, in order. The root is told apart by its id, as in the source:
  no other node of the new tree carries the root's id.
\<close>

theorem findChangedNodes_records_marked_nodes_once:
  assumes "\<forall>m \<in> set (descendants newTree). nid (info m) \<noteq> nid (info newTree)"
  shows "findChangedNodes newTree oldTree = diffNode True newTree oldTree \<and>
         (\<forall>i cs n'. hasChanges i \<longrightarrow>
            diffNode False (Node i cs) n' = Inr [\<lparr>new = Node i cs, old = n'\<rparr>])"
  using findChangedNodes_diffNode[OF assms] by simp

theorem findChangedNodes_records_marked_nodes_once_witness:
  "map (\<lambda>m. nid (info m)) (descendants exampleNew) = [1, 2, 3, 4] \<and>
   nid (info exampleNew) = 0 \<and>
   findChangedNodes exampleNew exampleOld =
     Inr [\<lparr>new = Node (leafInfo 1 True 0 5) [Node (leafInfo 2 True 0 5) []],
           old = Node (leafInfo 1 False 0 4) [Node (leafInfo 2 False 0 4) []]\<rparr>,
          \<lparr>new = Node (leafInfo 4 True 5 9) [], old = Node (leafInfo 4 False 4 8) []\<rparr>]"
proof -
  have ids: "map (\<lambda>m. nid (info m)) (descendants exampleNew) = [1, 2, 3, 4]"
    by (simp add: descendants_def exampleNew_def leafInfo_def)
  have root: "nid (info exampleNew) = 0"
    by (simp add: exampleNew_def leafInfo_def)
  have "\<forall>i \<in> set (map (\<lambda>m. nid (info m)) (descendants exampleNew)). i \<noteq> nid (info exampleNew)"
    unfolding ids root by simp
  then have h: "\<forall>m \<in> set (descendants exampleNew). nid (info m) \<noteq> nid (info exampleNew)"
    by simp
  have "diffNode True exampleNew exampleOld =
     Inr [\<lparr>new = Node (leafInfo 1 True 0 5) [Node (leafInfo 2 True 0 5) []],
           old = Node (leafInfo 1 False 0 4) [Node (leafInfo 2 False 0 4) []]\<rparr>,
          \<lparr>new = Node (leafInfo 4 True 5 9) [], old = Node (leafInfo 4 False 4 8) []\<rparr>]"
    by (simp add: exampleNew_def exampleOld_def leafInfo_def)
  with findChangedNodes_records_marked_nodes_once[OF h, of exampleOld] ids root
  show ?thesis by simp
qed

section \<open>Range changes\<close>

text \<open>
  Claim C8. \<^verbatim>\<open>calculateRangeChange\<close> turns every list of change units into the list of
  their range changes, one per unit and in the same order: the new range's start and end
  are the new node's zero-based start and end row and column, each plus one, and the old
  range length is the old node's end index minus its start index. Without a list it
  returns nothing. In the witness the new node starts at the zero-based (row 2, column 4),
  which becomes (3, 5).
\<close>

theorem calculateRangeChange_coordinates:
  "calculateRangeChange (Some changed) =
     Some (map (\<lambda>u.
       \<lparr>newRange =
          \<lparr>startLineNumber = row (startPosition (info (new u))) + 1,
           startColumn = column (startPosition (info (new u))) + 1,
           endLineNumber = row (endPosition (info (new u))) + 1,
           endColumn = column (endPosition (info (new u))) + 1\<rparr>,
        oldRangeLength = endIndex (info (old u)) - startIndex (info (old u))\<rparr>) changed) \<and>
   calculateRangeChange (Some changed) = Some (map rangeChangeOf changed) \<and>
   calculateRangeChange None = None"
  by (simp add: calculateRangeChange_def rangeChangeOf_def)

theorem calculateRangeChange_coordinates_witness:
  "calculateRangeChange (Some [exampleUnit]) =
     Some [\<lparr>newRange = \<lparr>startLineNumber = 3, startColumn = 5, endLineNumber = 3, endColumn = 10\<rparr>,
            oldRangeLength = 4\<rparr>] \<and>
   row (startPosition (info (new exampleUnit))) = 2 \<and>
   column (startPosition (info (new exampleUnit))) = 4 \<and>
   endIndex (info (old exampleUnit)) - startIndex (info (old exampleUnit)) = 4"
  using calculateRangeChange_coordinates[of "[exampleUnit]"]
  by (simp add: exampleUnit_def)

section \<open>The asynchronous cache: the synchronous accessor\<close>

lemma cacheRun_snoc: "cacheRun (events @ [ev]) = cacheStep (cacheRun events) ev"
  by (simp add: cacheRun_def)

text \<open>
  What \<^verbatim>\<open>_result\<close> can hold: nothing, or the record of how the promise settled.
\<close>

lemma cacheRun_result:
  "cacheRun events key = Some p \<Longrightarrow>
   (case result p of
      None \<Rightarrow> True
    | Some r \<Rightarrow>
        (case promise p of
           Pending \<Rightarrow> False
         | Fulfilled v \<Rightarrow> r = \<lparr>data = Some v, error = None\<rparr>
         | Rejected e \<Rightarrow> r = \<lparr>data = None, error = Some e\<rparr>))"
proof (induction events arbitrary: p rule: rev_induct)
  case Nil
  then show ?case by (simp add: cacheRun_def)
next
  case (snoc ev events)
  show ?case
  proof (cases ev)
    case (CacheSet k q)
    with snoc show ?thesis
      by (auto simp: cacheRun_snoc cacheSet_def newPromiseWithSyncAccess_def split: if_splits)
  next
    case (Settles k outcome)
    with snoc show ?thesis
      by (auto simp: cacheRun_snoc settle_def split: option.splits if_splits PromiseState.splits)
  next
    case (CallbackRuns k)
    with snoc show ?thesis
      by (auto simp: cacheRun_snoc onSettled_def split: option.splits if_splits PromiseState.splits)
  qed
qed

text \<open>
  Claim C4. \<^verbatim>\<open>getSyncIfCached\<close> is a function into \<open>'a option\<close>: it has no error result. In
  every state a cache can reach it returns nothing for an unknown key, for a pending
  promise and for a rejected promise; for a promise fulfilled with \<open>v\<close> it returns \<open>v\<close> once
  the callback that records the settlement has run (\<open>isCached\<close>), and nothing before. After
  that callback it returns \<open>v\<close> for a fulfilled promise and still nothing for the others.
\<close>

theorem getSyncIfCached_value_or_nothing:
  "getSyncIfCached (cacheRun events) key =
     (case cacheGet (cacheRun events) key of
        None \<Rightarrow> None
      | Some Pending \<Rightarrow> None
      | Some (Rejected e) \<Rightarrow> None
      | Some (Fulfilled v) \<Rightarrow> if isCached (cacheRun events) key then Some v else None) \<and>
   getSyncIfCached (cacheRun (events @ [CallbackRuns key])) key =
     (case cacheGet (cacheRun events) key of
        None \<Rightarrow> None
      | Some Pending \<Rightarrow> None
      | Some (Rejected e) \<Rightarrow> None
      | Some (Fulfilled v) \<Rightarrow> Some v)"
proof (cases "cacheRun events key")
  case None
  then show ?thesis
    by (simp add: getSyncIfCached_def cacheGet_def isCached_def cacheRun_snoc)
next
  case (Some p)
  from cacheRun_result[OF Some] show ?thesis using Some
    by (auto simp: getSyncIfCached_def cacheGet_def isCached_def cacheRun_snoc
        onSettled_def split: option.splits PromiseState.splits)
qed

section \<open>The grammar catalog: loads and broadcasts\<close>

lemma keyInv_new: "keyInv (newTreeSitterLanguages location registered) k"
  by (simp add: keyInv_def newTreeSitterLanguages_def firedFor_def)

lemma keyInv_cong:
  assumes "keyInv st k"
    and "fetchLanguageCalls st' = fetchLanguageCalls st" and "languages st' k = languages st k"
    and "readFileCalls st' = readFileCalls st"
    and "addLanguageAwaiting st' = addLanguageAwaiting st"
    and "onDidAddLanguageFired st' = onDidAddLanguageFired st"
  shows "keyInv st' k"
  using assms by (auto simp: keyInv_def firedFor_def split: option.splits PromiseState.splits)

lemma fetchLanguage_fields:
  "fetchLanguage languageId st = (p, st1) \<Longrightarrow>
   (p = Pending \<or> p = Fulfilled None) \<and>
   fetchLanguageCalls st1 = fetchLanguageCalls st @ [languageId] \<and>
   (readFileCalls st1 = readFileCalls st \<or>
    (\<exists>path. readFileCalls st1 = readFileCalls st @ [(languageId, path)])) \<and>
   languages st1 = languages st \<and> addLanguageAwaiting st1 = addLanguageAwaiting st \<and>
   onDidAddLanguageFired st1 = onDidAddLanguageFired st"
  by (auto simp: fetchLanguage_def Let_def split: if_splits)

lemma keyInv_addLanguage:
  assumes "keyInv st k"
  shows "keyInv (addLanguage languageId st) k"
proof (cases "languages st languageId")
  case (Some p)
  then show ?thesis using assms by (simp add: addLanguage_def cacheGet_def)
next
  case None
  obtain p st1 where f: "fetchLanguage languageId st = (p, st1)" by (cases "fetchLanguage languageId st")
  note ff = fetchLanguage_fields[OF f]
  have a: "addLanguage languageId st =
      st1\<lparr>languages := cacheSet (languages st1) languageId p,
          addLanguageAwaiting := addLanguageAwaiting st1 @ [languageId]\<rparr>"
    using None f by (simp add: addLanguage_def cacheGet_def)
  show ?thesis
  proof (cases "k = languageId")
    case True
    with assms None ff show ?thesis
      by (auto simp: keyInv_def a cacheSet_def newPromiseWithSyncAccess_def firedFor_def)
  next
    case False
    with assms ff show ?thesis
      by (auto simp: keyInv_def a cacheSet_def firedFor_def split: option.splits PromiseState.splits)
  qed
qed

lemma keyInv_getOrInitLanguage:
  "keyInv st k \<Longrightarrow> keyInv (snd (getOrInitLanguage languageId st)) k"
  by (simp add: getOrInitLanguage_def keyInv_addLanguage)

lemma keyInv_getLanguage:
  assumes "keyInv st k"
  shows "keyInv (snd (getLanguage languageId st)) k"
proof (cases "isCached (languages st) languageId")
  case True
  then show ?thesis using assms
    by (auto simp: getLanguage_def Let_def intro: keyInv_cong)
next
  case False
  have "keyInv (addLanguage languageId st) k" using assms by (rule keyInv_addLanguage)
  then show ?thesis using False
    by (auto simp: getLanguage_def Let_def intro: keyInv_cong)
qed

lemma keyInv_fetchSettles:
  assumes "keyInv st k"
  shows "keyInv (st\<lparr>languages := cacheStep (languages st) (Settles languageId (fetchOutcome outcome))\<rparr>) k"
proof (cases "languages st languageId")
  case None
  then show ?thesis using assms by (auto intro: keyInv_cong)
next
  case (Some p)
  show ?thesis
  proof (cases "k = languageId \<and> promise p = Pending")
    case False
    then show ?thesis using assms Some
      by (auto simp: settle_def intro: keyInv_cong)
  next
    case True
    then show ?thesis using assms Some
      by (cases outcome) (auto simp: keyInv_def settle_def firedFor_def)
  qed
qed

lemma keyInv_syncAccessCallback:
  assumes "keyInv st k"
  shows "keyInv (st\<lparr>languages := cacheStep (languages st) (CallbackRuns languageId)\<rparr>) k"
  using assms
  by (auto simp: keyInv_def firedFor_def onSettled_def split: option.splits PromiseState.splits)

lemma keyInv_resumeAddLanguage:
  assumes "keyInv st k"
  shows "keyInv (resumeAddLanguage languageId st) k"
proof (cases "languageId \<in> set (addLanguageAwaiting st)")
  case False
  then show ?thesis using assms by (simp add: resumeAddLanguage_def)
next
  case aw: True
  show ?thesis
  proof (cases "k = languageId")
    case True
    with assms aw show ?thesis
      by (auto simp: keyInv_def resumeAddLanguage_def cacheGet_def firedFor_def
          split: option.splits PromiseState.splits)
  next
    case False
    with assms aw show ?thesis
      by (auto simp: keyInv_def resumeAddLanguage_def cacheGet_def firedFor_def
          split: option.splits PromiseState.splits)
  qed
qed

lemma keyInv_resumeGetLanguage:
  "keyInv st k \<Longrightarrow> keyInv (resumeGetLanguage call st) k"
  by (auto simp: resumeGetLanguage_def split: option.splits PromiseState.splits intro: keyInv_cong)

lemma keyInv_grammar:
  "keyInv st k \<Longrightarrow> keyInv (addGrammar languageId grammarName st) k"
  "keyInv st k \<Longrightarrow> keyInv (removeGrammar languageId st) k"
  by (auto simp: addGrammar_def removeGrammar_def intro: keyInv_cong)

lemma keyInv_step: "keyInv st k \<Longrightarrow> keyInv (languagesStep st ev) k"
  by (cases ev)
    (simp_all add: keyInv_getOrInitLanguage keyInv_getLanguage keyInv_fetchSettles
      keyInv_syncAccessCallback keyInv_resumeAddLanguage keyInv_resumeGetLanguage keyInv_grammar
      del: cacheStep.simps)

lemma languagesRun_snoc:
  "languagesRun (events @ [ev]) st = languagesStep (languagesRun events st) ev"
  by (simp add: languagesRun_def)

lemma keyInv_run:
  "keyInv (languagesRun events (newTreeSitterLanguages location registered)) k"
  by (induction events rule: rev_induct) (simp_all add: languagesRun_def keyInv_new keyInv_step)

text \<open>An entry exists exactly when the language has been asked for.\<close>

lemma addLanguage_languages:
  "languages (addLanguage languageId st) k = None \<longleftrightarrow> languages st k = None \<and> k \<noteq> languageId"
proof (cases "languages st languageId")
  case (Some p)
  then show ?thesis by (auto simp: addLanguage_def cacheGet_def)
next
  case None
  obtain p st1 where f: "fetchLanguage languageId st = (p, st1)" by (cases "fetchLanguage languageId st")
  with None fetchLanguage_fields[OF f] show ?thesis
    by (auto simp: addLanguage_def cacheGet_def cacheSet_def)
qed

lemma isCached_entry: "isCached values k \<Longrightarrow> values k \<noteq> None"
  by (auto simp: isCached_def split: option.splits)

lemma step_languages:
  "languages (languagesStep st ev) k = None \<longleftrightarrow>
   languages st k = None \<and> ev \<noteq> CallGetOrInitLanguage k \<and> ev \<noteq> CallGetLanguage k"
proof (cases ev)
  case (CallGetOrInitLanguage x)
  then show ?thesis
    using isCached_entry[of "languages st" x]
    by (auto simp: getOrInitLanguage_def addLanguage_languages)
next
  case (CallGetLanguage x)
  then show ?thesis
    using isCached_entry[of "languages st" x]
    by (auto simp: getLanguage_def Let_def addLanguage_languages)
next
  case (FetchSettles x o')
  then show ?thesis by (auto split: option.splits)
next
  case (SyncAccessCallback x)
  then show ?thesis by (auto split: option.splits)
next
  case (ResumeAddLanguage x)
  then show ?thesis
    by (auto simp: resumeAddLanguage_def split: option.splits PromiseState.splits)
next
  case (ResumeGetLanguage x)
  then show ?thesis
    by (auto simp: resumeGetLanguage_def split: option.splits PromiseState.splits)
next
  case (AddGrammar x y)
  then show ?thesis by (auto simp: addGrammar_def)
next
  case (RemoveGrammar x)
  then show ?thesis by (auto simp: removeGrammar_def)
qed

lemma run_languages:
  "languages (languagesRun events (newTreeSitterLanguages location registered)) k = None \<longleftrightarrow>
   CallGetOrInitLanguage k \<notin> set events \<and> CallGetLanguage k \<notin> set events"
proof (induction events rule: rev_induct)
  case Nil
  then show ?case by (simp add: languagesRun_def newTreeSitterLanguages_def)
next
  case (snoc ev events)
  then show ?case by (auto simp: languagesRun_snoc step_languages)
qed

text \<open>
  Claim C5. However many requests (\<^verbatim>\<open>getOrInitLanguage\<close> or \<^verbatim>\<open>getLanguage\<close>) a catalog
  receives for a language, in whatever order they come with the settling of the fetch and
  the continuations, \<^verbatim>\<open>_fetchLanguage\<close> is started exactly once for that language if it
  was requested at all, and never otherwise; the file service is asked for the grammar
  file of that language at most once.
\<close>

theorem fetch_started_once:
  "count_list
     (fetchLanguageCalls (languagesRun events (newTreeSitterLanguages location registered)))
     languageId =
   (if CallGetOrInitLanguage languageId \<in> set events \<or> CallGetLanguage languageId \<in> set events
    then 1 else 0) \<and>
   length
     (filter (\<lambda>x. fst x = languageId)
        (readFileCalls (languagesRun events (newTreeSitterLanguages location registered)))) \<le> 1"
  using keyInv_run[of events location registered languageId]
    run_languages[of events location registered languageId]
  by (auto simp: keyInv_def split: if_splits)

text \<open>
  Claim C6. In every state a catalog can reach, \<^verbatim>\<open>_onDidAddLanguage\<close> has fired at most
  once for a language. It has not fired while the language has no cache entry, while the
  load is pending, when the load was rejected (the fetch failed) and when it was fulfilled
  with no grammar (no mapping). When the load was fulfilled with a grammar, it has fired
  exactly once, with that language id and that grammar, as soon as the waiting invocation
  of \<^verbatim>\<open>_addLanguage\<close> has resumed, and not before.
\<close>

theorem broadcast_once_after_successful_load:
  "(let st = languagesRun events (newTreeSitterLanguages location registered);
        fired = filter (\<lambda>x. fst x = languageId) (onDidAddLanguageFired st)
    in length fired \<le> 1 \<and>
       (case cacheGet (languages st) languageId of
          None \<Rightarrow> fired = []
        | Some Pending \<Rightarrow> fired = []
        | Some (Rejected e) \<Rightarrow> fired = []
        | Some (Fulfilled None) \<Rightarrow> fired = []
        | Some (Fulfilled (Some l)) \<Rightarrow>
            fired = (if languageId \<in> set (addLanguageAwaiting st) then [] else [(languageId, l)]) \<and>
            filter (\<lambda>x. fst x = languageId)
              (onDidAddLanguageFired (languagesStep st (ResumeAddLanguage languageId))) =
            [(languageId, l)]))"
proof -
  let ?st = "languagesRun events (newTreeSitterLanguages location registered)"
  have 1: "keyInv ?st languageId" by (rule keyInv_run)
  have "keyInv (languagesRun (events @ [ResumeAddLanguage languageId])
      (newTreeSitterLanguages location registered)) languageId" by (rule keyInv_run)
  then have 2: "keyInv (resumeAddLanguage languageId ?st) languageId"
    by (simp add: languagesRun_snoc)
  have 3: "languageId \<notin> set (addLanguageAwaiting (resumeAddLanguage languageId ?st)) \<or>
           (\<forall>l. cacheGet (languages ?st) languageId \<noteq> Some (Fulfilled (Some l)))"
    by (auto simp: resumeAddLanguage_def cacheGet_def split: option.splits PromiseState.splits)
  have 4: "languages (resumeAddLanguage languageId ?st) = languages ?st"
    by (auto simp: resumeAddLanguage_def split: option.splits PromiseState.splits)
  show ?thesis
    using 1 2 3 unfolding keyInv_def 4
    by (auto simp: Let_def firedFor_def cacheGet_def split: option.splits PromiseState.splits)
qed

text \<open>
  Claim C3 fails on the code for a failing fetch. The first \<^verbatim>\<open>getLanguage('typescript')\<close>
  finds nothing cached and waits for \<^verbatim>\<open>_addLanguage\<close>, which awaits the fetch promise
  without a \<^verbatim>\<open>catch\<close>: when \<^verbatim>\<open>readFile\<close> fails the promise returned by \<^verbatim>\<open>getLanguage\<close> is
  rejected with that error. Once the failure is recorded in the cache, the cached branch of
  the same method answers a second call with \<^verbatim>\<open>undefined\<close>.
\<close>

theorem getLanguage_rejects_when_fetch_fails:
  "getLanguageResults (languagesRun failedFetch typescriptCatalog) 0 =
     Some (Rejected (Error ''ENOENT'')) \<and>
   getLanguageResults (languagesRun failedFetch typescriptCatalog) 1 = Some (Fulfilled None) \<and>
   readFileCalls (languagesRun failedFetch typescriptCatalog) =
     [(''typescript'',
       ''node_modules/@vscode/tree-sitter-wasm/wasm/tree-sitter-typescript.wasm'')] \<and>
   onDidAddLanguageFired (languagesRun failedFetch typescriptCatalog) = []"
  by (simp add: failedFetch_def typescriptCatalog_def languagesRun_def newTreeSitterLanguages_def
      getLanguage_def isCached_def addLanguage_def cacheGet_def fetchLanguage_def falsy_def
      getLanguageLocation_def getModuleLocation_def MODULE_LOCATION_SUBPATH_def cacheSet_def
      newPromiseWithSyncAccess_def settle_def resumeAddLanguage_def onSettled_def
      resumeGetLanguage_def cachedLanguage_def getSyncIfCached_def Let_def)

section \<open>The parse session: invariants of the queue and the promises\<close>

lemma applyEdits_fields:
  "queue (applyEdits treeEdit getPositionAt changes s) = queue s \<and>
   running (applyEdits treeEdit getPositionAt changes s) = running s \<and>
   promises (applyEdits treeEdit getPositionAt changes s) = promises s \<and>
   nextPromise (applyEdits treeEdit getPositionAt changes s) = nextPromise s \<and>
   loggedErrors (applyEdits treeEdit getPositionAt changes s) = loggedErrors s \<and>
   commits (applyEdits treeEdit getPositionAt changes s) = commits s \<and>
   telemetry (applyEdits treeEdit getPositionAt changes s) = telemetry s \<and>
   isDisposed (applyEdits treeEdit getPositionAt changes s) = isDisposed s"
  by (induction changes arbitrary: s) simp_all

lemma applyEdits_jobs: "jobs (applyEdits treeEdit getPositionAt changes s) = jobs s"
  by (simp add: jobs_def applyEdits_fields)

lemma applyEdits_newEdits:
  "newEdits (applyEdits treeEdit getPositionAt changes s) = (newEdits s \<or> changes \<noteq> [])"
  by (induction changes arbitrary: s) auto

text \<open>The two outcomes of a call of onDidChangeContent.\<close>

lemma onDidChangeContent_cases:
  "onDidChangeContent treeEdit getPositionAt changes s =
     (case changedRanges (tree (applyEdits treeEdit getPositionAt changes s)) (tree s) of
        Inl e \<Rightarrow>
          (nextPromise s,
           (applyEdits treeEdit getPositionAt changes s)
             \<lparr>promises := (promises s)(nextPromise s \<mapsto> Rejected e),
              nextPromise := Suc (nextPromise s)\<rparr>)
      | Inr changed \<Rightarrow>
          (nextPromise s,
           (applyEdits treeEdit getPositionAt changes s)
             \<lparr>queue := queue s @ [\<lparr>changedNodes = changed, promiseId = nextPromise s\<rparr>],
              promises := (promises s)(nextPromise s \<mapsto> Pending),
              nextPromise := Suc (nextPromise s)\<rparr>))"
  unfolding onDidChangeContent_def Let_def
  by (simp add: applyEdits_fields split: sum.splits)

lemma onDidChangeContent_Inl:
  assumes "changedRanges (tree (applyEdits treeEdit getPositionAt changes s)) (tree s) = Inl e"
  shows "jobs (snd (onDidChangeContent treeEdit getPositionAt changes s)) = jobs s"
    and "promises (snd (onDidChangeContent treeEdit getPositionAt changes s)) =
           (promises s)(nextPromise s \<mapsto> Rejected e)"
    and "nextPromise (snd (onDidChangeContent treeEdit getPositionAt changes s)) = Suc (nextPromise s)"
  using assms by (simp_all add: onDidChangeContent_cases jobs_def applyEdits_fields)

lemma onDidChangeContent_Inr:
  assumes "changedRanges (tree (applyEdits treeEdit getPositionAt changes s)) (tree s) = Inr changed"
  shows "jobs (snd (onDidChangeContent treeEdit getPositionAt changes s)) =
           jobs s @ [\<lparr>changedNodes = changed, promiseId = nextPromise s\<rparr>]"
    and "promises (snd (onDidChangeContent treeEdit getPositionAt changes s)) =
           (promises s)(nextPromise s \<mapsto> Pending)"
    and "nextPromise (snd (onDidChangeContent treeEdit getPositionAt changes s)) = Suc (nextPromise s)"
  using assms by (simp_all add: onDidChangeContent_cases jobs_def applyEdits_fields)

text \<open>What the segments of a callback do to the unfinished callbacks and to the promises.\<close>

lemma startNext_jobs: "set (jobs (startNext thrown parsed s)) \<subseteq> set (jobs s)"
  by (auto simp: startNext_def jobs_def caught_def Let_def split: list.splits option.splits)

lemma startNext_promises:
  "promises (startNext thrown parsed s) = promises s \<and>
   nextPromise (startNext thrown parsed s) = nextPromise s"
  by (auto simp: startNext_def caught_def Let_def split: list.splits option.splits)

lemma startNext_distinct:
  "distinct (map promiseId (jobs s)) \<Longrightarrow> distinct (map promiseId (jobs (startNext thrown parsed s)))"
  by (auto simp: startNext_def jobs_def caught_def Let_def split: list.splits option.splits)

lemma resume_jobs: "set (jobs (resume thrown modelDisposed parsed s)) \<subseteq> set (jobs s)"
  by (auto simp: resume_def jobs_def caught_def split: option.splits Phase.splits)

lemma resume_promises:
  "promises (resume thrown modelDisposed parsed s) = promises s \<and>
   nextPromise (resume thrown modelDisposed parsed s) = nextPromise s"
  by (auto simp: resume_def caught_def split: option.splits Phase.splits)

lemma resume_distinct:
  "distinct (map promiseId (jobs s)) \<Longrightarrow>
   distinct (map promiseId (jobs (resume thrown modelDisposed parsed s)))"
  by (auto simp: resume_def jobs_def caught_def split: option.splits Phase.splits)

lemma commit_jobs: "set (jobs (commit thrown s)) \<subseteq> set (jobs s)"
  by (auto simp: commit_def jobs_def caught_def Let_def split: option.splits Phase.splits)

lemma commit_distinct:
  "distinct (map promiseId (jobs s)) \<Longrightarrow> distinct (map promiseId (jobs (commit thrown s)))"
  by (auto simp: commit_def jobs_def caught_def Let_def split: option.splits Phase.splits)

lemma commit_promises:
  "nextPromise (commit thrown s) = nextPromise s \<and>
   (promises (commit thrown s) = promises s \<or>
    (\<exists>job t. running s = Some (job, Returned t) \<and> jobs (commit thrown s) = queue s \<and>
       promises (commit thrown s) = (promises s)(promiseId job \<mapsto> Fulfilled (changedNodes job))))"
  by (auto simp: commit_def caught_def jobs_def Let_def split: option.splits Phase.splits)

lemma sessionInv_step:
  assumes "sessionInv s"
  shows "sessionInv (sessionStep treeEdit s ev)"
proof (cases ev)
  case (ChangeContent getPositionAt changes)
  show ?thesis
  proof (cases "changedRanges (tree (applyEdits treeEdit getPositionAt changes s)) (tree s)")
    case (Inl e)
    show ?thesis using assms unfolding ChangeContent sessionInv_def sessionStep.simps
        onDidChangeContent_Inl[OF Inl]
      by fastforce
  next
    case (Inr changed)
    show ?thesis using assms unfolding ChangeContent sessionInv_def sessionStep.simps
        onDidChangeContent_Inr[OF Inr]
      by fastforce
  qed
next
  case (StartNext thrown parsed)
  have "\<forall>job \<in> set (jobs (startNext thrown parsed s)).
      promiseId job < nextPromise s \<and> promises s (promiseId job) = Some Pending"
    using assms startNext_jobs[of thrown parsed s] unfolding sessionInv_def by blast
  then show ?thesis using assms StartNext
    by (simp add: sessionInv_def startNext_promises startNext_distinct)
next
  case (Resume thrown modelDisposed parsed)
  have "\<forall>job \<in> set (jobs (resume thrown modelDisposed parsed s)).
      promiseId job < nextPromise s \<and> promises s (promiseId job) = Some Pending"
    using assms resume_jobs[of thrown modelDisposed parsed s] unfolding sessionInv_def by blast
  then show ?thesis using assms Resume
    by (simp add: sessionInv_def resume_promises resume_distinct)
next
  case (Commit thrown)
  have d: "distinct (map promiseId (jobs (commit thrown s)))"
    using assms by (simp add: sessionInv_def commit_distinct)
  have "\<forall>job \<in> set (jobs (commit thrown s)).
      promiseId job < nextPromise (commit thrown s) \<and>
      promises (commit thrown s) (promiseId job) = Some Pending"
  proof
    fix job assume j: "job \<in> set (jobs (commit thrown s))"
    then have js: "job \<in> set (jobs s)" using commit_jobs by blast
    from commit_promises[of thrown s] show "promiseId job < nextPromise (commit thrown s) \<and>
      promises (commit thrown s) (promiseId job) = Some Pending"
    proof (elim conjE disjE exE)
      assume "nextPromise (commit thrown s) = nextPromise s" "promises (commit thrown s) = promises s"
      then show ?thesis using assms js by (simp add: sessionInv_def)
    next
      fix job' t
      assume n: "nextPromise (commit thrown s) = nextPromise s"
        and r: "running s = Some (job', Returned t)" and q: "jobs (commit thrown s) = queue s"
        and p: "promises (commit thrown s) = (promises s)(promiseId job' \<mapsto> Fulfilled (changedNodes job'))"
      have js': "jobs s = job' # queue s" using r by (simp add: jobs_def)
      have "job \<in> set (queue s)" using j q by simp
      moreover have "promiseId job' \<notin> promiseId ` set (queue s)"
        using assms unfolding sessionInv_def js' by simp
      ultimately have "promiseId job \<noteq> promiseId job'" by (metis imageI)
      then show ?thesis using assms js n p by (simp add: sessionInv_def)
    qed
  qed
  with d Commit show ?thesis by (simp add: sessionInv_def)
next
  case Dispose
  then show ?thesis using assms by (simp add: sessionInv_def dispose_def jobs_def)
qed


lemma sessionRun_append:
  "sessionRun treeEdit (events @ events') s = sessionRun treeEdit events' (sessionRun treeEdit events s)"
  by (simp add: sessionRun_def)

lemma sessionInv_run: "sessionInv s \<Longrightarrow> sessionInv (sessionRun treeEdit events s)"
  by (induction events rule: rev_induct) (simp_all add: sessionRun_def sessionInv_step)

lemma sessionInv_new: "sessionInv newTreeSitterParseResult"
  by (simp add: sessionInv_def newTreeSitterParseResult_def jobs_def)

lemma running_in_jobs: "running s = Some (job, phase) \<Longrightarrow> job \<in> set (jobs s)"
  by (simp add: jobs_def)

lemma abandoned_step:
  assumes "abandoned p s"
  shows "abandoned p (sessionStep treeEdit s ev)"
proof (cases ev)
  case (ChangeContent getPositionAt changes)
  have lt: "p < nextPromise s" using assms by (simp add: abandoned_def)
  show ?thesis
  proof (cases "changedRanges (tree (applyEdits treeEdit getPositionAt changes s)) (tree s)")
    case (Inl e)
    show ?thesis using assms lt unfolding ChangeContent abandoned_def sessionStep.simps
        onDidChangeContent_Inl[OF Inl]
      by simp
  next
    case (Inr changed)
    show ?thesis using assms lt unfolding ChangeContent abandoned_def sessionStep.simps
        onDidChangeContent_Inr[OF Inr]
      by simp
  qed
next
  case (StartNext thrown parsed)
  have "p \<notin> promiseId ` set (jobs (startNext thrown parsed s))"
    using assms startNext_jobs[of thrown parsed s] unfolding abandoned_def by blast
  then show ?thesis using assms StartNext by (simp add: abandoned_def startNext_promises)
next
  case (Resume thrown modelDisposed parsed)
  have "p \<notin> promiseId ` set (jobs (resume thrown modelDisposed parsed s))"
    using assms resume_jobs[of thrown modelDisposed parsed s] unfolding abandoned_def by blast
  then show ?thesis using assms Resume by (simp add: abandoned_def resume_promises)
next
  case (Commit thrown)
  have j: "p \<notin> promiseId ` set (jobs (commit thrown s))"
    using assms commit_jobs[of thrown s] unfolding abandoned_def by blast
  have "promises (commit thrown s) p = Some Pending"
    using commit_promises[of thrown s]
  proof (elim conjE disjE exE)
    assume "promises (commit thrown s) = promises s"
    then show ?thesis using assms by (simp add: abandoned_def)
  next
    fix job t
    assume r: "running s = Some (job, Returned t)"
      and pr: "promises (commit thrown s) = (promises s)(promiseId job \<mapsto> Fulfilled (changedNodes job))"
    have "promiseId job \<noteq> p"
      using running_in_jobs[OF r] assms unfolding abandoned_def by (metis imageI)
    then show ?thesis using pr assms by (simp add: abandoned_def)
  qed
  then show ?thesis using assms Commit j commit_promises[of thrown s] by (simp add: abandoned_def)
next
  case Dispose
  then show ?thesis using assms by (simp add: abandoned_def dispose_def jobs_def)
qed

lemma abandoned_run: "abandoned p s \<Longrightarrow> abandoned p (sessionRun treeEdit events s)"
  by (induction events rule: rev_induct) (simp_all add: sessionRun_def abandoned_step)



text \<open>The example session, evaluated.\<close>

lemma exampleDiff:
  "findChangedNodes exampleNew exampleOld =
     Inr [\<lparr>new = Node (leafInfo 1 True 0 5) [Node (leafInfo 2 True 0 5) []],
           old = Node (leafInfo 1 False 0 4) [Node (leafInfo 2 False 0 4) []]\<rparr>,
          \<lparr>new = Node (leafInfo 4 True 5 9) [], old = Node (leafInfo 4 False 4 8) []\<rparr>]"
proof -
  have "\<forall>m \<in> set (descendants exampleNew). nid (info m) \<noteq> nid (info exampleNew)"
    by (simp add: descendants_def exampleNew_def leafInfo_def)
  from findChangedNodes_diffNode[OF this, of exampleOld] show ?thesis
    by (simp add: exampleNew_def exampleOld_def leafInfo_def)
qed

lemma exampleChangedRanges:
  "changedRanges (Some exampleNew) (Some exampleOld) = Inr (Some exampleRanges)"
  by (simp add: changedRanges_def exampleDiff calculateRangeChange_def rangeChangeOf_def
      exampleRanges_def leafInfo_def)

lemma firstParse_state:
  "sessionRun treeEdit (firstParse t) newTreeSitterParseResult =
     \<lparr>tree = Some t, isDisposed = False, newEdits = False, queue = [], running = None,
      promises = [0 \<mapsto> Fulfilled None], nextPromise = 1, loggedErrors = [],
      commits = [Some t], telemetry = [(Full, 1)]\<rparr>"
  by (simp add: firstParse_def sessionRun_def newTreeSitterParseResult_def onDidChangeContent_def
      changedRanges_def startNext_def resume_def commit_def Let_def)

lemma exampleSession_state:
  "exampleSession =
     \<lparr>tree = Some exampleOld, isDisposed = False, newEdits = False, queue = [], running = None,
      promises = [0 \<mapsto> Fulfilled None], nextPromise = 1, loggedErrors = [],
      commits = [Some exampleOld], telemetry = [(Full, 1)]\<rparr>"
  by (simp add: exampleSession_def firstParse_state)

lemma exampleCall:
  "onDidChangeContent exampleEdit examplePosition [exampleChange] exampleSession =
     (1, \<lparr>tree = Some exampleNew, isDisposed = False, newEdits = True, queue = [exampleJob],
          running = None, promises = [0 \<mapsto> Fulfilled None, 1 \<mapsto> Pending], nextPromise = 2,
          loggedErrors = [], commits = [Some exampleOld], telemetry = [(Full, 1)]\<rparr>)"
  by (simp add: onDidChangeContent_def exampleSession_state exampleEdit_def Let_def
      exampleChangedRanges exampleJob_def)

section \<open>The parse session: when the reported ranges arrive\<close>


lemma exampleAfterChange_state:
  "exampleAfterChange =
     \<lparr>tree = Some exampleNew, isDisposed = False, newEdits = True, queue = [exampleJob],
      running = None, promises = [0 \<mapsto> Fulfilled None, 1 \<mapsto> Pending], nextPromise = 2,
      loggedErrors = [], commits = [Some exampleOld], telemetry = [(Full, 1)]\<rparr>"
  by (simp add: exampleAfterChange_def exampleCall)






section \<open>The parse session: promises that never settle\<close>

lemma exampleAfterChange_run:
  "exampleAfterChange = sessionRun exampleEdit changeReported newTreeSitterParseResult"
  by (simp add: changeReported_def sessionRun_append exampleAfterChange_def exampleSession_def)
    (simp add: sessionRun_def)

lemma abandoned_dropped:
  assumes "sessionInv s" and "jobs s = job # rest" and "jobs s' = rest"
    and "promises s' = promises s" and "nextPromise s' = nextPromise s"
  shows "abandoned (promiseId job) s'"
  using assms by (auto simp: sessionInv_def abandoned_def)

lemma changeReported_snoc:
  "sessionRun exampleEdit (changeReported @ events) newTreeSitterParseResult =
     sessionRun exampleEdit events exampleAfterChange"
  by (simp add: sessionRun_append exampleAfterChange_run)

text \<open>
  Claim C10, as the code has it. In every state a session can reach: when the session is
  disposed at the moment the queue starts the callback of a change, the callback returns at
  once and the promise of that change stays pending whatever happens later; when a segment
  of the callback throws (at its start, after a pass, or in the assignment of the tree) the
  queue's \<^verbatim>\<open>catch\<close> logs the error and the promise stays pending whatever happens later.
  A disposed model alone does not have this effect: \<^verbatim>\<open>_parseAndYield\<close> returns without a
  tree at its check, and the callback goes on to resolve the promise with its ranges
  (last conjunct).
\<close>

theorem onDidChangeContent_promise_never_settles:
  assumes s: "s = sessionRun treeEdit before newTreeSitterParseResult"
  shows
   "(running s = None \<and> queue s = job # rest \<and> isDisposed s \<longrightarrow>
       (\<forall>thrown parsed events.
          promises (sessionRun treeEdit events (startNext thrown parsed s)) (promiseId job) =
            Some Pending)) \<and>
    (running s = None \<and> queue s = job # rest \<and> \<not> isDisposed s \<longrightarrow>
       (\<forall>e parsed events.
          loggedErrors (startNext (Some e) parsed s) = loggedErrors s @ [e] \<and>
          promises (sessionRun treeEdit events (startNext (Some e) parsed s)) (promiseId job) =
            Some Pending)) \<and>
    (running s = Some (job, Yielding parseType t passes) \<longrightarrow>
       (\<forall>e modelDisposed parsed events.
          loggedErrors (resume (Some e) modelDisposed parsed s) = loggedErrors s @ [e] \<and>
          promises (sessionRun treeEdit events (resume (Some e) modelDisposed parsed s))
            (promiseId job) = Some Pending)) \<and>
    (running s = Some (job, Returned t) \<and> \<not> newEdits s \<longrightarrow>
       (\<forall>e events.
          loggedErrors (commit (Some e) s) = loggedErrors s @ [e] \<and>
          promises (sessionRun treeEdit events (commit (Some e) s)) (promiseId job) =
            Some Pending)) \<and>
    (running s = Some (job, Yielding parseType t passes) \<longrightarrow>
       (\<forall>parsed.
          promises (commit None (resume None True parsed s)) (promiseId job) =
            Some (Fulfilled (changedNodes job))))"
proof -
  have inv: "sessionInv s" unfolding s by (rule sessionInv_run[OF sessionInv_new])
  have pend: "\<And>s' events. abandoned (promiseId job) s' \<Longrightarrow>
      promises (sessionRun treeEdit events s') (promiseId job) = Some Pending"
    using abandoned_run[of "promiseId job" _ treeEdit] by (simp add: abandoned_def)
  have c1: "running s = None \<and> queue s = job # rest \<and> isDisposed s \<longrightarrow>
       (\<forall>thrown parsed events.
          promises (sessionRun treeEdit events (startNext thrown parsed s)) (promiseId job) =
            Some Pending)"
  proof (intro impI allI)
    fix thrown parsed events
    assume a: "running s = None \<and> queue s = job # rest \<and> isDisposed s"
    then have "startNext thrown parsed s = s\<lparr>queue := rest\<rparr>"
      by (simp add: startNext_def)
    moreover have "abandoned (promiseId job) (s\<lparr>queue := rest\<rparr>)"
      using a by (intro abandoned_dropped[OF inv]) (simp_all add: jobs_def)
    ultimately show "promises (sessionRun treeEdit events (startNext thrown parsed s))
        (promiseId job) = Some Pending"
      using pend by simp
  qed
  have c2: "running s = None \<and> queue s = job # rest \<and> \<not> isDisposed s \<longrightarrow>
       (\<forall>e parsed events.
          loggedErrors (startNext (Some e) parsed s) = loggedErrors s @ [e] \<and>
          promises (sessionRun treeEdit events (startNext (Some e) parsed s)) (promiseId job) =
            Some Pending)"
  proof (intro impI allI)
    fix e parsed events
    assume a: "running s = None \<and> queue s = job # rest \<and> \<not> isDisposed s"
    then have eq: "startNext (Some e) parsed s = caught e (s\<lparr>queue := rest\<rparr>)"
      by (simp add: startNext_def)
    have "abandoned (promiseId job) (caught e (s\<lparr>queue := rest\<rparr>))"
      using a by (intro abandoned_dropped[OF inv]) (simp_all add: jobs_def caught_def)
    then show "loggedErrors (startNext (Some e) parsed s) = loggedErrors s @ [e] \<and>
          promises (sessionRun treeEdit events (startNext (Some e) parsed s)) (promiseId job) =
            Some Pending"
      using pend unfolding eq by (simp add: caught_def)
  qed
  have c3: "running s = Some (job, Yielding parseType t passes) \<longrightarrow>
       (\<forall>e modelDisposed parsed events.
          loggedErrors (resume (Some e) modelDisposed parsed s) = loggedErrors s @ [e] \<and>
          promises (sessionRun treeEdit events (resume (Some e) modelDisposed parsed s))
            (promiseId job) = Some Pending)"
  proof (intro impI allI)
    fix e modelDisposed parsed events
    assume a: "running s = Some (job, Yielding parseType t passes)"
    then have eq: "resume (Some e) modelDisposed parsed s = caught e s"
      by (simp add: resume_def)
    have "abandoned (promiseId job) (caught e s)"
      using a by (intro abandoned_dropped[OF inv]) (simp_all add: jobs_def caught_def)
    then show "loggedErrors (resume (Some e) modelDisposed parsed s) = loggedErrors s @ [e] \<and>
          promises (sessionRun treeEdit events (resume (Some e) modelDisposed parsed s))
            (promiseId job) = Some Pending"
      using pend unfolding eq by (simp add: caught_def)
  qed
  have c4: "running s = Some (job, Returned t) \<and> \<not> newEdits s \<longrightarrow>
       (\<forall>e events.
          loggedErrors (commit (Some e) s) = loggedErrors s @ [e] \<and>
          promises (sessionRun treeEdit events (commit (Some e) s)) (promiseId job) =
            Some Pending)"
  proof (intro impI allI)
    fix e events
    assume a: "running s = Some (job, Returned t) \<and> \<not> newEdits s"
    then have eq: "commit (Some e) s = caught e s"
      by (simp add: commit_def)
    have "abandoned (promiseId job) (caught e s)"
      using a by (intro abandoned_dropped[OF inv]) (simp_all add: jobs_def caught_def)
    then show "loggedErrors (commit (Some e) s) = loggedErrors s @ [e] \<and>
          promises (sessionRun treeEdit events (commit (Some e) s)) (promiseId job) =
            Some Pending"
      using pend unfolding eq by (simp add: caught_def)
  qed
  have c5: "running s = Some (job, Yielding parseType t passes) \<longrightarrow>
       (\<forall>parsed.
          promises (commit None (resume None True parsed s)) (promiseId job) =
            Some (Fulfilled (changedNodes job)))"
    by (simp add: resume_def commit_def Let_def)
  from c1 c2 c3 c4 c5 show ?thesis by blast
qed

theorem onDidChangeContent_promise_never_settles_witness:
  "isDisposed (sessionRun exampleEdit (changeReported @ [Dispose]) newTreeSitterParseResult) \<and>
   queue (sessionRun exampleEdit (changeReported @ [Dispose]) newTreeSitterParseResult) =
     [exampleJob] \<and>
   running (sessionRun exampleEdit (changeReported @ [Dispose]) newTreeSitterParseResult) =
     None \<and>
   promises
     (sessionRun exampleEdit laterEvents
        (startNext None (Some exampleNew)
           (sessionRun exampleEdit (changeReported @ [Dispose]) newTreeSitterParseResult))) 1 =
     Some Pending \<and>
   running (sessionRun exampleEdit (changeReported @ [StartNext None None]) newTreeSitterParseResult) =
     Some (exampleJob, Yielding Incremental None 1) \<and>
   loggedErrors
     (resume (Some (Error ''telemetry'')) False None
        (sessionRun exampleEdit (changeReported @ [StartNext None None]) newTreeSitterParseResult)) =
     [Error ''telemetry''] \<and>
   promises
     (sessionRun exampleEdit laterEvents
        (resume (Some (Error ''telemetry'')) False None
           (sessionRun exampleEdit (changeReported @ [StartNext None None])
              newTreeSitterParseResult))) 1 =
     Some Pending \<and>
   promises
     (commit None
        (resume None True None
           (sessionRun exampleEdit (changeReported @ [StartNext None None])
              newTreeSitterParseResult))) 1 =
     Some (Fulfilled (Some exampleRanges))"
proof -
  let ?a = "sessionRun exampleEdit (changeReported @ [Dispose]) newTreeSitterParseResult"
  let ?b = "sessionRun exampleEdit (changeReported @ [StartNext None None]) newTreeSitterParseResult"
  have a: "?a = \<lparr>tree = Some exampleNew, isDisposed = True, newEdits = True, queue = [exampleJob],
      running = None, promises = [0 \<mapsto> Fulfilled None, 1 \<mapsto> Pending], nextPromise = 2,
      loggedErrors = [], commits = [Some exampleOld], telemetry = [(Full, 1)]\<rparr>"
    unfolding changeReported_snoc
    by (simp add: exampleAfterChange_state sessionRun_def dispose_def)
  have b: "?b = \<lparr>tree = Some exampleNew, isDisposed = False, newEdits = False, queue = [],
      running = Some (exampleJob, Yielding Incremental None 1),
      promises = [0 \<mapsto> Fulfilled None, 1 \<mapsto> Pending], nextPromise = 2,
      loggedErrors = [], commits = [Some exampleOld], telemetry = [(Full, 1)]\<rparr>"
    unfolding changeReported_snoc
    by (simp add: exampleAfterChange_state sessionRun_def startNext_def)
  have a1: "running ?a = None \<and> queue ?a = exampleJob # [] \<and> isDisposed ?a"
    by (simp add: a)
  have b1: "running ?b = Some (exampleJob, Yielding Incremental None 1)"
    by (simp add: b)
  have id: "promiseId exampleJob = 1" "changedNodes exampleJob = Some exampleRanges"
    by (simp_all add: exampleJob_def)
  note ta = onDidChangeContent_promise_never_settles[where treeEdit = exampleEdit
      and before = "changeReported @ [Dispose]" and job = exampleJob and rest = "[]"
      and parseType = Incremental and t = None and passes = 1, OF refl]
  note tb = onDidChangeContent_promise_never_settles[where treeEdit = exampleEdit
      and before = "changeReported @ [StartNext None None]" and job = exampleJob and rest = "[]"
      and parseType = Incremental and t = None and passes = 1, OF refl]
  from ta a1 have 1: "promises (sessionRun exampleEdit laterEvents
      (startNext None (Some exampleNew) ?a)) (promiseId exampleJob) = Some Pending"
    by blast
  from tb b1 have 2: "loggedErrors (resume (Some (Error ''telemetry'')) False None ?b) =
        loggedErrors ?b @ [Error ''telemetry''] \<and>
      promises (sessionRun exampleEdit laterEvents
        (resume (Some (Error ''telemetry'')) False None ?b)) (promiseId exampleJob) = Some Pending"
    by blast
  from tb b1 have 3: "promises (commit None (resume None True None ?b)) (promiseId exampleJob) =
      Some (Fulfilled (changedNodes exampleJob))"
    by blast
  have le: "loggedErrors ?b = []" by (simp add: b)
  from a1 b1 1 2 3 show ?thesis unfolding id le by simp
qed

text \<open>
  Claim C10 as stated fails for the model: the session is not disposed, the model is
  found disposed at the first check of the queued reparse, and the promise of the change
  is fulfilled with the ranges; nothing is logged.
\<close>

theorem disposed_model_still_resolves:
  "isDisposed exampleAfterChange = False \<and>
   queue exampleAfterChange = [\<lparr>changedNodes = Some exampleRanges, promiseId = 1\<rparr>] \<and>
   promises exampleAfterChange 1 = Some Pending \<and>
   promises
     (sessionRun exampleEdit
        [StartNext None (Some exampleNew), Resume None True None, Commit None]
        exampleAfterChange) 1 =
     Some (Fulfilled (Some exampleRanges)) \<and>
   loggedErrors
     (sessionRun exampleEdit
        [StartNext None (Some exampleNew), Resume None True None, Commit None]
        exampleAfterChange) = []"
  by (simp add: exampleAfterChange_state exampleJob_def sessionRun_def startNext_def resume_def
      commit_def Let_def)

section \<open>The parse session: which parse result is committed\<close>

lemma external_step:
  assumes "isExternal ev"
  shows "running (sessionStep treeEdit s ev) = running s \<and>
         commits (sessionStep treeEdit s ev) = commits s"
proof (cases ev)
  case (ChangeContent getPositionAt changes)
  then show ?thesis
    by (simp add: onDidChangeContent_cases applyEdits_fields split: sum.splits)
next
  case Dispose
  then show ?thesis by (simp add: dispose_def)
qed (use assms in \<open>simp_all add: isExternal_def\<close>)

lemma external_run:
  "\<forall>ev \<in> set events. isExternal ev \<Longrightarrow>
   running (sessionRun treeEdit events s) = running s \<and>
   commits (sessionRun treeEdit events s) = commits s"
  by (induction events rule: rev_induct) (simp_all add: sessionRun_def external_step)

lemma examplePass_state:
  "examplePass =
     \<lparr>tree = Some exampleNew, isDisposed = False, newEdits = False, queue = [],
      running = Some (exampleJob, Yielding Incremental (Some exampleNew) 1),
      promises = [0 \<mapsto> Fulfilled None, 1 \<mapsto> Pending], nextPromise = 2,
      loggedErrors = [], commits = [Some exampleOld], telemetry = [(Full, 1)]\<rparr>"
  by (simp add: examplePass_def exampleAfterChange_state sessionRun_def startNext_def)

text \<open>
  Claim C2, as the code has it. A pass of the reparse loop has left \<open>t\<close> in the local
  \<^verbatim>\<open>tree\<close>; the timer fires and the loop makes its check; notifications and disposals may
  arrive before the result is committed. Then \<^verbatim>\<open>_parseAndUpdateTree\<close> assigns the tree \<open>T\<close>
  exactly when the pass produced \<open>T\<close>, neither the model nor the session was found disposed
  at the check, and \<^verbatim>\<open>_newEdits\<close> is still clear at the assignment; in that case \<open>T\<close> is the
  current tree. When \<^verbatim>\<open>_newEdits\<close> is set, nothing is assigned and the current tree stays
  as it is: a result overtaken by an edit is dropped.
\<close>

theorem parse_result_committed_iff:
  assumes y: "running s = Some (job, Yielding parseType t passes)"
    and ext: "\<forall>ev \<in> set between. isExternal ev"
    and s2: "s2 = sessionRun treeEdit between (resume None modelDisposed parsed s)"
  shows "(commits (commit None s2) = commits s @ [Some T] \<longleftrightarrow>
           t = Some T \<and> \<not> modelDisposed \<and> \<not> isDisposed s \<and> \<not> newEdits s2) \<and>
         (t = Some T \<and> \<not> modelDisposed \<and> \<not> isDisposed s \<and> \<not> newEdits s2 \<longrightarrow>
           tree (commit None s2) = Some T) \<and>
         (newEdits s2 \<longrightarrow> commits (commit None s2) = commits s \<and> tree (commit None s2) = tree s2)"
proof -
  let ?s1 = "resume None modelDisposed parsed s"
  have r2: "running s2 = running ?s1" and c2: "commits s2 = commits ?s1"
    unfolding s2 using external_run[OF ext] by simp_all
  have c1: "commits ?s1 = commits s" using y by (simp add: resume_def)
  consider (disposed) "modelDisposed \<or> isDisposed s"
    | (again) "\<not> (modelDisposed \<or> isDisposed s)" "t = None" "\<not> newEdits s"
    | (returns) "\<not> (modelDisposed \<or> isDisposed s)" "t \<noteq> None \<or> newEdits s"
    by blast
  then show ?thesis
  proof cases
    case disposed
    then have "running s2 = Some (job, Returned None)"
      using y r2 by (auto simp: resume_def)
    then show ?thesis using disposed c1 c2
      by (auto simp: commit_def Let_def)
  next
    case again
    then have "running s2 = Some (job, Yielding parseType parsed (Suc passes))"
      using y r2 by (simp add: resume_def)
    then show ?thesis using again c1 c2
      by (auto simp: commit_def)
  next
    case returns
    then have "running s2 = Some (job, Returned t)"
      using y r2 by (auto simp: resume_def)
    then show ?thesis using returns c1 c2
      by (auto simp: commit_def Let_def)
  qed
qed

theorem parse_result_committed_iff_witness:
  "running examplePass = Some (exampleJob, Yielding Incremental (Some exampleNew) 1) \<and>
   isExternal (ChangeContent examplePosition []) \<and>
   isExternal (ChangeContent examplePosition [exampleChange]) \<and>
   commits
     (commit None
        (sessionRun exampleEdit [ChangeContent examplePosition []]
           (resume None False None examplePass))) =
     commits examplePass @ [Some exampleNew] \<and>
   tree
     (commit None
        (sessionRun exampleEdit [ChangeContent examplePosition []]
           (resume None False None examplePass))) =
     Some exampleNew \<and>
   newEdits
     (sessionRun exampleEdit [ChangeContent examplePosition [exampleChange]]
        (resume None False None examplePass)) \<and>
   commits
     (commit None
        (sessionRun exampleEdit [ChangeContent examplePosition [exampleChange]]
           (resume None False None examplePass))) =
     commits examplePass"
proof -
  let ?quiet = "sessionRun exampleEdit [ChangeContent examplePosition []]
      (resume None False None examplePass)"
  let ?edited = "sessionRun exampleEdit [ChangeContent examplePosition [exampleChange]]
      (resume None False None examplePass)"
  have y: "running examplePass = Some (exampleJob, Yielding Incremental (Some exampleNew) 1)"
    by (simp add: examplePass_state)
  have e1: "isExternal (ChangeContent examplePosition [])"
    and e2: "isExternal (ChangeContent examplePosition [exampleChange])"
    by (simp_all add: isExternal_def)
  have x1: "\<forall>ev \<in> set [ChangeContent examplePosition []]. isExternal ev" using e1 by simp
  have x2: "\<forall>ev \<in> set [ChangeContent examplePosition [exampleChange]]. isExternal ev"
    using e2 by simp
  have n1: "\<not> newEdits ?quiet"
    by (simp add: examplePass_state resume_def sessionRun_def onDidChangeContent_cases
        split: sum.splits)
  have n2: "newEdits ?edited"
    by (simp add: sessionRun_def onDidChangeContent_cases applyEdits_newEdits split: sum.splits)
  have d: "\<not> isDisposed examplePass" by (simp add: examplePass_state)
  note q = parse_result_committed_iff[OF y x1 refl, where T = exampleNew and modelDisposed = False
      and parsed = None and treeEdit = exampleEdit]
  note e = parse_result_committed_iff[OF y x2 refl, where T = exampleNew and modelDisposed = False
      and parsed = None and treeEdit = exampleEdit]
  from q n1 d have "commits (commit None ?quiet) = commits examplePass @ [Some exampleNew]"
    and "tree (commit None ?quiet) = Some exampleNew"
    by blast+
  moreover from e n2 have "commits (commit None ?edited) = commits examplePass" by blast
  ultimately show ?thesis using y e1 e2 n2 by blast
qed

text \<open>
  Claim C2 as stated fails: the pass produced \<open>exampleNew\<close> and no edit arrived, but the
  model was found disposed at the check; the loop returns nothing, and what is assigned as
  the current tree is nothing, not the tree of the pass.
\<close>

theorem produced_tree_dropped_on_disposal:
  "running examplePass = Some (exampleJob, Yielding Incremental (Some exampleNew) 1) \<and>
   newEdits (resume None True None examplePass) = False \<and>
   isDisposed (resume None True None examplePass) = False \<and>
   commits (commit None (resume None True None examplePass)) = [Some exampleOld, None] \<and>
   tree (commit None (resume None True None examplePass)) = None"
  by (simp add: examplePass_state resume_def commit_def Let_def)

section \<open>The parse session: trees out of sync\<close>

text \<open>Each lockstep move throws exactly when the two cursors answer differently.\<close>

lemma moves_disagree:
  "gotoFirstChild cs = Inl outOfSync \<longleftrightarrow>
     fst (cursorGotoFirstChild (fst cs)) \<noteq> fst (cursorGotoFirstChild (snd cs))"
  "gotoNextSibling cs = Inl outOfSync \<longleftrightarrow>
     fst (cursorGotoNextSibling (fst cs)) \<noteq> fst (cursorGotoNextSibling (snd cs))"
  "gotoParent cs = Inl outOfSync \<longleftrightarrow>
     fst (cursorGotoParent (fst cs)) \<noteq> fst (cursorGotoParent (snd cs))"
  by (auto simp: gotoFirstChild_def gotoNextSibling_def gotoParent_def split: prod.splits)

lemma climbDisagrees_can_move:
  "climbDisagrees cs \<Longrightarrow> nextSibling (fst cs) \<noteq> None \<or> parent (fst cs) \<noteq> None"
  by (induction rule: climbDisagrees.induct) auto

lemma climbDisagrees_raises:
  "climbDisagrees cs \<Longrightarrow> nextSiblingOrParentSibling cs = Inl outOfSync"
proof (induction rule: climbDisagrees.induct)
  case (sibling cs)
  then show ?case
    by (subst nextSiblingOrParentSibling.simps) (simp add: moves_disagree)
next
  case (parent cs)
  then have "gotoParent cs = Inl outOfSync" by (simp add: moves_disagree)
  with parent show ?case
    by (subst nextSiblingOrParentSibling.simps) simp
next
  case (climb cs b cs')
  from climbDisagrees_can_move[OF climb.hyps(4)] climb show ?case
    by (subst nextSiblingOrParentSibling.simps) auto
qed

lemma stepDisagrees_raises:
  assumes "stepDisagrees rootId cs"
  shows "findChangedNodes_loop rootId cs acc = Inl outOfSync"
proof -
  have "(if canGoChild rootId cs then gotoFirstChild cs else nextSiblingOrParentSibling cs) =
      Inl outOfSync"
    using assms by (auto simp: stepDisagrees_def moves_disagree climbDisagrees_raises)
  then show ?thesis by (subst findChangedNodes_loop.simps) simp
qed

lemma visits_loop:
  "visits rootId start cs \<Longrightarrow>
   \<exists>acc'. findChangedNodes_loop rootId start acc = findChangedNodes_loop rootId cs acc'"
proof (induction rule: visits.induct)
  case start
  show ?case by blast
next
  case (round cs cs')
  then obtain acc' where
    "findChangedNodes_loop rootId start acc = findChangedNodes_loop rootId cs acc'" by blast
  also have "\<dots> = findChangedNodes_loop rootId cs' (pushChanged rootId cs acc')"
    using round.hyps(2) by (subst findChangedNodes_loop.simps) simp
  finally show ?case by blast
qed

lemma disagreement_raises:
  assumes "visits (nid (info newTree)) (walk newTree, walk oldTree) cs"
    and "stepDisagrees (nid (info newTree)) cs"
  shows "findChangedNodes newTree oldTree = Inl outOfSync"
  using visits_loop[OF assms(1), of "[]"] stepDisagrees_raises[OF assms(2)]
  by (auto simp: findChangedNodes_def)

lemma exampleRootId: "\<forall>m \<in> set (descendants exampleNew). nid (info m) \<noteq> nid (info exampleNew)"
  by (simp add: descendants_def exampleNew_def leafInfo_def)

lemma exampleDesync_diff: "findChangedNodes exampleNew exampleLeaf = Inl outOfSync"
  using findChangedNodes_diffNode[OF exampleRootId, of exampleLeaf]
  by (simp add: exampleNew_def exampleLeaf_def)

lemma exampleDesync_call:
  "onDidChangeContent exampleEdit examplePosition [exampleChange]
     (sessionRun exampleEdit (firstParse exampleLeaf) newTreeSitterParseResult) =
   (1, \<lparr>tree = Some exampleNew, isDisposed = False, newEdits = True, queue = [],
        running = None, promises = [0 \<mapsto> Fulfilled None, 1 \<mapsto> Rejected outOfSync],
        nextPromise = 2, loggedErrors = [], commits = [Some exampleLeaf],
        telemetry = [(Full, 1)]\<rparr>)"
  by (simp add: firstParse_state onDidChangeContent_def Let_def exampleEdit_def changedRanges_def
      exampleDesync_diff)

lemma exampleDesync_state:
  "exampleDesync =
     \<lparr>tree = Some exampleNew, isDisposed = False, newEdits = True, queue = [],
      running = None, promises = [0 \<mapsto> Fulfilled None, 1 \<mapsto> Rejected outOfSync],
      nextPromise = 2, loggedErrors = [], commits = [Some exampleLeaf],
      telemetry = [(Full, 1)]\<rparr>"
  by (simp add: exampleDesync_def exampleDesync_call)

lemma exampleSelfDiff:
  "changedRanges (Some exampleNew) (Some exampleNew) =
     Inr (Some
       [\<lparr>newRange = \<lparr>startLineNumber = 1, startColumn = 1, endLineNumber = 1, endColumn = 6\<rparr>,
         oldRangeLength = 5\<rparr>,
        \<lparr>newRange = \<lparr>startLineNumber = 1, startColumn = 6, endLineNumber = 1, endColumn = 10\<rparr>,
         oldRangeLength = 4\<rparr>])"
  using findChangedNodes_diffNode[OF exampleRootId, of exampleNew]
  by (simp add: changedRanges_def calculateRangeChange_def rangeChangeOf_def exampleNew_def
      leafInfo_def)

text \<open>
  Claim C9, as the code has it. When, at a state the traversal reaches, the two cursors
  answer differently to the step the loop issues, \<^verbatim>\<open>findChangedNodes\<close> throws
  \<^verbatim>\<open>Trees are out of sync\<close>. The diff runs inside \<^verbatim>\<open>onDidChangeContent\<close> before the queue is
  touched, so the error rejects the promise the call returns: no reparse is enqueued for
  that change, the queue and the callback in flight are as before, and nothing is logged
  (the queue's \<^verbatim>\<open>catch\<close> guards the queued reparse only). The session is not disposed and
  keeps the edited tree; the next notification whose diff does not throw is enqueued as
  usual.
\<close>

theorem desync_rejects_the_returned_promise:
  assumes old: "tree s = Some oldTree"
    and new: "tree (applyEdits treeEdit getPositionAt changes s) = Some newTree"
    and v: "visits (nid (info newTree)) (walk newTree, walk oldTree) cs"
    and d: "stepDisagrees (nid (info newTree)) cs"
    and call: "onDidChangeContent treeEdit getPositionAt changes s = (p, s1)"
  shows "findChangedNodes newTree oldTree = Inl outOfSync \<and>
         promises s1 p = Some (Rejected outOfSync) \<and>
         queue s1 = queue s \<and> running s1 = running s \<and>
         loggedErrors s1 = loggedErrors s \<and> isDisposed s1 = isDisposed s \<and>
         tree s1 = Some newTree \<and>
         (\<forall>getPositionAt' changes' r.
            changedRanges (tree (applyEdits treeEdit getPositionAt' changes' s1)) (tree s1) = Inr r \<longrightarrow>
            queue (snd (onDidChangeContent treeEdit getPositionAt' changes' s1)) =
              queue s @ [\<lparr>changedNodes = r, promiseId = Suc p\<rparr>])"
proof -
  have f: "findChangedNodes newTree oldTree = Inl outOfSync"
    using v d by (rule disagreement_raises)
  have cr: "changedRanges (tree (applyEdits treeEdit getPositionAt changes s)) (tree s) =
      Inl outOfSync"
    using old new f by (simp add: changedRanges_def)
  have p: "p = nextPromise s"
    and s1: "s1 = (applyEdits treeEdit getPositionAt changes s)
        \<lparr>promises := (promises s)(nextPromise s \<mapsto> Rejected outOfSync),
         nextPromise := Suc (nextPromise s)\<rparr>"
    using call cr by (auto simp: onDidChangeContent_cases)
  have fields: "promises s1 p = Some (Rejected outOfSync) \<and>
         queue s1 = queue s \<and> running s1 = running s \<and>
         loggedErrors s1 = loggedErrors s \<and> isDisposed s1 = isDisposed s \<and>
         tree s1 = Some newTree \<and> nextPromise s1 = Suc p"
    unfolding s1 p using new by (simp add: applyEdits_fields)
  have nxt: "\<forall>getPositionAt' changes' r.
            changedRanges (tree (applyEdits treeEdit getPositionAt' changes' s1)) (tree s1) = Inr r \<longrightarrow>
            queue (snd (onDidChangeContent treeEdit getPositionAt' changes' s1)) =
              queue s @ [\<lparr>changedNodes = r, promiseId = Suc p\<rparr>]"
    using fields by (simp add: onDidChangeContent_cases)
  from f fields nxt show ?thesis by blast
qed

theorem desync_rejects_the_returned_promise_witness:
  "tree (sessionRun exampleEdit (firstParse exampleLeaf) newTreeSitterParseResult) =
     Some exampleLeaf \<and>
   fst (cursorGotoFirstChild (walk exampleNew)) \<and>
   \<not> fst (cursorGotoFirstChild (walk exampleLeaf)) \<and>
   findChangedNodes exampleNew exampleLeaf = Inl outOfSync \<and>
   promises exampleDesync 1 = Some (Rejected outOfSync) \<and>
   queue exampleDesync = [] \<and>
   isDisposed exampleDesync = False \<and>
   queue (snd (onDidChangeContent exampleEdit examplePosition [] exampleDesync)) =
     [\<lparr>changedNodes = Some
        [\<lparr>newRange = \<lparr>startLineNumber = 1, startColumn = 1, endLineNumber = 1, endColumn = 6\<rparr>,
          oldRangeLength = 5\<rparr>,
         \<lparr>newRange = \<lparr>startLineNumber = 1, startColumn = 6, endLineNumber = 1, endColumn = 10\<rparr>,
          oldRangeLength = 4\<rparr>],
       promiseId = 2\<rparr>]"
proof -
  let ?s = "sessionRun exampleEdit (firstParse exampleLeaf) newTreeSitterParseResult"
  let ?start = "(walk exampleNew, walk exampleLeaf)"
  have old: "tree ?s = Some exampleLeaf" by (simp add: firstParse_state)
  have new: "tree (applyEdits exampleEdit examplePosition [exampleChange] ?s) = Some exampleNew"
    by (simp add: firstParse_state exampleEdit_def)
  have v: "visits (nid (info exampleNew)) ?start ?start" by (rule visits.start)
  have m1: "fst (cursorGotoFirstChild (walk exampleNew))"
    and m2: "\<not> fst (cursorGotoFirstChild (walk exampleLeaf))"
    by (simp_all add: walk_def exampleNew_def exampleLeaf_def)
  have "canGoChild (nid (info exampleNew)) ?start"
    by (simp add: canGoChild_def isChanged_def walk_def exampleNew_def)
  then have d: "stepDisagrees (nid (info exampleNew)) ?start"
    using m1 m2 by (simp add: stepDisagrees_def)
  have call: "onDidChangeContent exampleEdit examplePosition [exampleChange] ?s = (1, exampleDesync)"
    by (simp add: exampleDesync_call exampleDesync_state)
  note t = desync_rejects_the_returned_promise[OF old new v d call]
  have nxt: "changedRanges (tree (applyEdits exampleEdit examplePosition [] exampleDesync))
      (tree exampleDesync) =
     Inr (Some
       [\<lparr>newRange = \<lparr>startLineNumber = 1, startColumn = 1, endLineNumber = 1, endColumn = 6\<rparr>,
         oldRangeLength = 5\<rparr>,
        \<lparr>newRange = \<lparr>startLineNumber = 1, startColumn = 6, endLineNumber = 1, endColumn = 10\<rparr>,
         oldRangeLength = 4\<rparr>])"
    by (simp add: exampleDesync_state exampleSelfDiff)
  have q: "queue ?s = []" by (simp add: firstParse_state)
  from t nxt have "queue (snd (onDidChangeContent exampleEdit examplePosition [] exampleDesync)) =
     queue ?s @ [\<lparr>changedNodes = Some
        [\<lparr>newRange = \<lparr>startLineNumber = 1, startColumn = 1, endLineNumber = 1, endColumn = 6\<rparr>,
          oldRangeLength = 5\<rparr>,
         \<lparr>newRange = \<lparr>startLineNumber = 1, startColumn = 6, endLineNumber = 1, endColumn = 10\<rparr>,
          oldRangeLength = 4\<rparr>],
       promiseId = Suc 1\<rparr>]"
    by blast
  moreover from t have "findChangedNodes exampleNew exampleLeaf = Inl outOfSync"
    "promises exampleDesync 1 = Some (Rejected outOfSync)"
    "queue exampleDesync = queue ?s" "isDisposed exampleDesync = isDisposed ?s"
    by blast+
  moreover have "isDisposed ?s = False" by (simp add: firstParse_state)
  ultimately show ?thesis using old m1 m2 q by simp
qed

text \<open>
  Claim C9 as stated fails where it says the error is absorbed at the session's queue: in
  the example the promise returned to the caller is rejected with the error, the queue is
  empty, and its \<^verbatim>\<open>catch\<close> has logged nothing, neither after the call nor after the queue
  has been given its turn.
\<close>

theorem desync_error_bypasses_the_queue:
  "tree (sessionRun exampleEdit (firstParse exampleLeaf) newTreeSitterParseResult) =
     Some exampleLeaf \<and>
   onDidChangeContent exampleEdit examplePosition [exampleChange]
     (sessionRun exampleEdit (firstParse exampleLeaf) newTreeSitterParseResult) =
     (1, exampleDesync) \<and>
   findChangedNodes exampleNew exampleLeaf = Inl outOfSync \<and>
   promises exampleDesync 1 = Some (Rejected outOfSync) \<and>
   queue exampleDesync = [] \<and>
   running exampleDesync = None \<and>
   loggedErrors exampleDesync = [] \<and>
   loggedErrors
     (sessionRun exampleEdit [StartNext None None, Resume None False None, Commit None]
        exampleDesync) = []"
proof -
  have "loggedErrors
     (sessionRun exampleEdit [StartNext None None, Resume None False None, Commit None]
        exampleDesync) = []"
    by (simp add: exampleDesync_state sessionRun_def startNext_def resume_def commit_def)
  moreover have "promises exampleDesync 1 = Some (Rejected outOfSync)"
    "queue exampleDesync = []" "running exampleDesync = None" "loggedErrors exampleDesync = []"
    by (simp_all add: exampleDesync_state)
  moreover have "tree (sessionRun exampleEdit (firstParse exampleLeaf) newTreeSitterParseResult) =
     Some exampleLeaf" by (simp add: firstParse_state)
  moreover have "onDidChangeContent exampleEdit examplePosition [exampleChange]
     (sessionRun exampleEdit (firstParse exampleLeaf) newTreeSitterParseResult) =
     (1, exampleDesync)"
    by (simp add: exampleDesync_call exampleDesync_state)
  ultimately show ?thesis using exampleDesync_diff by simp
qed

end
